theory Spec2Isabelle
  imports Main "HOL-Library.Sublist" "HOL-Library.Multiset"
begin

section \<open>Strings\<close>

text \<open>
  The component works on JavaScript strings. None of its regular expressions carries the
  unicode flag, so they read a string one code unit at a time and compare code units with
  ASCII characters only; a string is modelled as a \<^typ>\<open>string\<close>, one \<^typ>\<open>char\<close> per
  code unit. \<open>text.slice(a, b)\<close> with \<open>0 \<le> a\<close> is \<open>slice\<close>, \<open>text.slice(a)\<close> is \<^const>\<open>drop\<close>.
\<close>

abbreviation bslash :: char where
  "bslash \<equiv> CHR 0x5C"

abbreviation newline :: char where
  "newline \<equiv> CHR 0x0A"

definition slice :: "string \<Rightarrow> nat \<Rightarrow> nat \<Rightarrow> string" where
  "slice s a b = take (b - a) (drop a s)"

definition digit_char :: "nat \<Rightarrow> char" where
  "digit_char d = ''0123456789'' ! d"

text \<open>The decimal numeral a template literal \<open>${n}\<close> prints for a non-negative integer.\<close>

function show_nat :: "nat \<Rightarrow> string" where
  "show_nat n = (if n < 10 then [digit_char n] else show_nat (n div 10) @ [digit_char (n mod 10)])"
  by pat_completeness auto
termination
  by (relation "measure (\<lambda>n. n)") auto

declare show_nat.simps [simp del]

text \<open>The class \<open>\d\<close> of a regular expression without the unicode flag: \<open>[0-9]\<close>.\<close>

definition is_digit :: "char \<Rightarrow> bool" where
  "is_digit c = (c \<in> set ''0123456789'')"

section \<open>The regular expressions of the component\<close>

text \<open>
  The six patterns of \<open>markdown.tsx\<close>:
  \<^item> \<open>BracketBlock\<close> is \<^verbatim>\<open>/\\\[([\s\S]*?)\\\]/g\<close>, \<open>DollarBlock\<close> is \<^verbatim>\<open>/\$\$([\s\S]*?)\$\$/g\<close>;
  \<^item> \<open>ParenInline\<close> is \<^verbatim>\<open>/\\\(([\s\S]*?)\\\)/g\<close>, \<open>DollarInline\<close> is
    \<^verbatim>\<open>/\$(?![{#])[^\$\n]+?\$/g\<close>;
  \<^item> \<open>BlockMarker\<close> is \<^verbatim>\<open>/LATEXBLOCK(\d+)END/g\<close>, \<open>InlineMarker\<close> is
    \<^verbatim>\<open>/LATEXINLINE(\d+)END/g\<close>.

  \<open>match_at p s\<close> is the length of the match of \<open>p\<close> that starts at the first code unit of
  \<open>s\<close>, if there is one. No pattern looks behind its start, so a match at an offset of a
  text is a match at the head of the text's suffix from that offset.
\<close>

datatype pattern =
  BracketBlock | DollarBlock | ParenInline | DollarInline | BlockMarker | InlineMarker

text \<open>The offset of the first occurrence of \<open>needle\<close> in a string.\<close>

fun find_sub :: "string \<Rightarrow> string \<Rightarrow> nat option" where
  "find_sub needle [] = (if needle = [] then Some 0 else None)"
| "find_sub needle (c # cs) =
     (if prefix needle (c # cs) then Some 0 else map_option Suc (find_sub needle cs))"

text \<open>
  An opening delimiter, a lazy \<open>[\s\S]*?\<close> and a closing delimiter: the match ends with
  the first closing delimiter that starts after the opening one.
\<close>

definition match_delimited :: "string \<Rightarrow> string \<Rightarrow> string \<Rightarrow> nat option" where
  "match_delimited opening closing s =
     (if prefix opening s
      then (case find_sub closing (drop (length opening) s) of
              Some k \<Rightarrow> Some (length opening + k + length closing)
            | None \<Rightarrow> None)
      else None)"

text \<open>
  \<^verbatim>\<open>\$(?![{#])[^\$\n]+?\$\<close>: a dollar not followed by \<open>{\<close> or \<open>#\<close>, one or more code units
  that are neither a dollar nor a line feed, and a dollar.
\<close>

definition math_char :: "char \<Rightarrow> bool" where
  "math_char c = (c \<noteq> CHR ''$'' \<and> c \<noteq> newline)"

definition match_single_dollar :: "string \<Rightarrow> nat option" where
  "match_single_dollar s =
     (case s of
        [] \<Rightarrow> None
      | c # r \<Rightarrow>
          if c \<noteq> CHR ''$'' then None
          else if prefix ''{'' r \<or> prefix ''#'' r then None
          else if takeWhile math_char r \<noteq> [] \<and> prefix ''$'' (dropWhile math_char r)
               then Some (length (takeWhile math_char r) + 2)
               else None)"

text \<open>
  \<open>NAME(\d+)END\<close>: the name, the longest run of digits (one at least), and \<open>END\<close>. The
  greedy \<open>\d+\<close> cannot give a digit back: \<open>END\<close> does not start with one.
\<close>

definition match_marker :: "string \<Rightarrow> string \<Rightarrow> nat option" where
  "match_marker name s =
     (if prefix name s
      then (let r = drop (length name) s in
            if takeWhile is_digit r \<noteq> [] \<and> prefix ''END'' (dropWhile is_digit r)
            then Some (length name + length (takeWhile is_digit r) + 3)
            else None)
      else None)"

fun match_at :: "pattern \<Rightarrow> string \<Rightarrow> nat option" where
  "match_at BracketBlock s = match_delimited [bslash, CHR ''[''] [bslash, CHR '']''] s"
| "match_at DollarBlock s = match_delimited ''$$'' ''$$'' s"
| "match_at ParenInline s = match_delimited [bslash, CHR ''(''] [bslash, CHR '')''] s"
| "match_at DollarInline s = match_single_dollar s"
| "match_at BlockMarker s = match_marker ''LATEXBLOCK'' s"
| "match_at InlineMarker s = match_marker ''LATEXINLINE'' s"

text \<open>
  The leftmost match in a string, as (offset, length): what one \<open>exec\<close> or \<open>test\<close> of a
  regular expression whose \<open>lastIndex\<close> is 0 finds. No pattern matches the empty string.
\<close>

fun search :: "pattern \<Rightarrow> string \<Rightarrow> (nat \<times> nat) option" where
  "search p [] = None"
| "search p (c # cs) =
     (case match_at p (c # cs) of
        Some n \<Rightarrow> Some (0, n)
      | None \<Rightarrow> (case search p cs of Some (i, n) \<Rightarrow> Some (Suc i, n) | None \<Rightarrow> None))"

definition test :: "pattern \<Rightarrow> string \<Rightarrow> bool" where
  "test p s = (search p s \<noteq> None)"

text \<open>\<open>text.match(/^...$/)\<close> without the multiline flag: the match is the whole string.\<close>

definition match_whole :: "pattern \<Rightarrow> string \<Rightarrow> bool" where
  "match_whole p s = (match_at p s = Some (length s))"

text \<open>
  The loop \<open>while ((match = pattern.exec(text)) !== null)\<close>: every match from left to right,
  each search starting where the last match ended. \<open>off\<close> is \<open>lastIndex\<close> and \<open>s\<close> is the text
  from there; a match is the pair of \<open>match.index\<close> and \<open>match[0]\<close>.
\<close>

function exec_all :: "pattern \<Rightarrow> nat \<Rightarrow> string \<Rightarrow> (nat \<times> string) list" where
  "exec_all p off s =
     (if s = [] then []
      else (case match_at p s of
              Some n \<Rightarrow> (off, take n s) # exec_all p (off + n) (drop n s)
            | None \<Rightarrow> exec_all p (Suc off) (tl s)))"
  by pat_completeness auto
termination
proof (relation "measure (\<lambda>(p, off, s). length s)")
  show "wf (measure (\<lambda>(p, off, s). length s))"
    by simp
next
  fix p :: pattern and off :: nat and s :: string and n :: nat
  assume "s \<noteq> []" and m: "match_at p s = Some n"
  have "0 < n"
    using m
    by (cases p)
      (auto simp: match_delimited_def match_single_dollar_def match_marker_def Let_def
        split: if_splits option.splits list.splits)
  with \<open>s \<noteq> []\<close> show "((p, off + n, drop n s), (p, off, s)) \<in> measure (\<lambda>(p, off, s). length s)"
    by simp
next
  fix p :: pattern and off :: nat and s :: string
  assume "s \<noteq> []"
  then show "((p, Suc off, tl s), (p, off, s)) \<in> measure (\<lambda>(p, off, s). length s)"
    by (cases s) simp_all
qed

declare exec_all.simps [simp del]

text \<open>The two marker patterns of the resolver, and the one that goes with a kind of match.\<close>

definition is_marker :: "pattern \<Rightarrow> bool" where
  "is_marker p = (p = BlockMarker \<or> p = InlineMarker)"

definition pat_of :: "bool \<Rightarrow> pattern" where
  "pat_of isB = (if isB then BlockMarker else InlineMarker)"

section \<open>The span store and the extraction pass\<close>

text \<open>An entry of \<open>latexBlocks\<close>: \<open>{ id, content, isBlock }\<close>.\<close>

record latex_block =
  id_str :: string
  content :: string
  isBlock :: bool

text \<open>The two template literals that make a marker from \<open>latexBlocks.length\<close>.\<close>

definition block_id :: "nat \<Rightarrow> string" where
  "block_id n = ''LATEXBLOCK'' @ show_nat n @ ''END''"

definition inline_id :: "nat \<Rightarrow> string" where
  "inline_id n = ''LATEXINLINE'' @ show_nat n @ ''END''"

text \<open>
  \<open>modifiedContent.replace(pattern, callback)\<close> with a global pattern: the matches are
  found from left to right in the string as it was, the callback runs once per match in
  that order, and what it returns replaces the match as it is. The callback makes the
  marker from the length of the store, appends the entry \<open>{ id, content: match, isBlock }\<close>
  and returns the marker. The function returns the new string and the new store.
\<close>

function replace_all ::
  "(nat \<Rightarrow> string) \<Rightarrow> pattern \<Rightarrow> bool \<Rightarrow> string \<Rightarrow> latex_block list \<Rightarrow> string \<times> latex_block list"
where
  "replace_all mk p isB s latexBlocks =
     (if s = [] then ([], latexBlocks)
      else (case match_at p s of
              Some n \<Rightarrow>
                (let (r, bl) = replace_all mk p isB (drop n s)
                       (latexBlocks @
                         [\<lparr>id_str = mk (length latexBlocks), content = take n s, isBlock = isB\<rparr>])
                 in (mk (length latexBlocks) @ r, bl))
            | None \<Rightarrow>
                (let (r, bl) = replace_all mk p isB (tl s) latexBlocks
                 in (hd s # r, bl))))"
  by pat_completeness auto
termination
proof (relation "measure (\<lambda>(mk, p, isB, s, bl). length s)")
  show "wf (measure (\<lambda>(mk, p, isB, s, bl). length s))"
    by simp
next
  fix mk :: "nat \<Rightarrow> string" and p :: pattern and isB :: bool and s :: string
    and latexBlocks :: "latex_block list" and n :: nat
  assume "s \<noteq> []" and m: "match_at p s = Some n"
  have "0 < n"
    using m
    by (cases p)
      (auto simp: match_delimited_def match_single_dollar_def match_marker_def Let_def
        split: if_splits option.splits list.splits)
  with \<open>s \<noteq> []\<close>
  show "((mk, p, isB, drop n s,
          latexBlocks @ [\<lparr>id_str = mk (length latexBlocks), content = take n s, isBlock = isB\<rparr>]),
         (mk, p, isB, s, latexBlocks)) \<in> measure (\<lambda>(mk, p, isB, s, bl). length s)"
    by simp
next
  fix mk :: "nat \<Rightarrow> string" and p :: pattern and isB :: bool and s :: string
    and latexBlocks :: "latex_block list"
  assume "s \<noteq> []"
  then show "((mk, p, isB, tl s, latexBlocks), (mk, p, isB, s, latexBlocks))
      \<in> measure (\<lambda>(mk, p, isB, s, bl). length s)"
    by (cases s) simp_all
qed

declare replace_all.simps [simp del]

definition blockPatterns :: "(pattern \<times> bool) list" where
  "blockPatterns = [(BracketBlock, True), (DollarBlock, True)]"

definition inlinePatterns :: "(pattern \<times> bool) list" where
  "inlinePatterns = [(ParenInline, False), (DollarInline, False)]"

text \<open>
  \<open>patterns.forEach(({ pattern, isBlock }) => { modifiedContent = modifiedContent.replace(...) })\<close>:
  the patterns in their order, each on the string the one before left, all appending to
  the one store. \<open>mk\<close> is the template literal of the loop's callback.
\<close>

definition forEach_replace ::
  "(nat \<Rightarrow> string) \<Rightarrow> (pattern \<times> bool) list \<Rightarrow> string \<times> latex_block list \<Rightarrow> string \<times> latex_block list"
where
  "forEach_replace mk patterns st =
     foldl (\<lambda>(modifiedContent, latexBlocks) (p, isB).
              replace_all mk p isB modifiedContent latexBlocks) st patterns"

text \<open>
  A substitution in the words of the specification: \<open>weave gaps tokens\<close> is the text
  \<open>gap\<^sub>0 @ token\<^sub>1 @ gap\<^sub>1 @ \<dots> @ token\<^sub>n @ gap\<^sub>n\<close>. A pass that replaces each matched span
  by a marker turns the weave of the spans' contents into the weave of their markers,
  over the same gaps.
\<close>

fun weave :: "string list \<Rightarrow> string list \<Rightarrow> string" where
  "weave [] ts = []"
| "weave (g # gs) [] = g"
| "weave (g # gs) (t # ts) = g @ t @ weave gs ts"

text \<open>
  The body of the \<open>useMemo\<close> of \<open>NonMemoizedMarkdown\<close>: the block patterns first, then the
  inline patterns on what they left. It returns \<open>[modifiedContent, latexBlocks]\<close>.
\<close>

definition extractLatex :: "string \<Rightarrow> string \<times> latex_block list" where
  "extractLatex children =
     forEach_replace inline_id inlinePatterns
       (forEach_replace block_id blockPatterns (children, []))"

section \<open>React nodes\<close>

text \<open>
  What a renderer callback receives and returns is a React node: nothing, a string, an
  array of nodes, or an element with its type, its props and its children (one node per
  child expression of the JSX, so \<open><p>{children}</p>\<close> has the one child \<open>children\<close>). The
  type of an element is a host tag, the fragment symbol, a component this file defines
  (\<open>WordByWordFadeIn\<close>, kept by the \<open>displayName\<close> the file gives it), or a component the
  file imports (\<open>Latex\<close>, \<open>Marked\<close>, \<open>JsonView\<close>, \<open>LinkIcon\<close>), kept by the name the import
  binds it to. The name \<open>type.displayName || type.name\<close> reads from an imported component at
  run time is set by its library, which the source does not contain: it is the parameter
  \<open>importName\<close>, from the binding to the name read (none when both are undefined). A
  component element is not expanded: React renders it after the callback has returned. The
  \<open>key\<close> of an element tells React which element of a list is which and is no part of what
  is rendered; keys are left out.
\<close>

datatype etype = Host string | Fragment | Component string | Imported string

datatype prop_value =
  PStr string | PBool bool | PDelims "(string \<times> string \<times> bool) list" | PStore "latex_block list"

datatype rnode =
  Null | Str string | Arr "rnode list" | Elem etype "(string \<times> prop_value) list" "rnode list"

text \<open>\<open>React.Children.toArray\<close>: nested arrays are flattened, empty nodes are dropped.\<close>

fun toArray :: "rnode \<Rightarrow> rnode list" where
  "toArray Null = []"
| "toArray (Arr xs) = concat (map toArray xs)"
| "toArray (Str s) = [Str s]"
| "toArray (Elem t ps cs) = [Elem t ps cs]"

text \<open>\<open>type.displayName || type.name\<close>: undefined for a host tag and for the fragment symbol.\<close>

fun componentName :: "(string \<Rightarrow> string option) \<Rightarrow> etype \<Rightarrow> string option" where
  "componentName importName (Host tag) = None"
| "componentName importName Fragment = None"
| "componentName importName (Component name) = Some name"
| "componentName importName (Imported binding) = importName binding"

text \<open>
  The test every wrapping callback makes on its children:
  \<open>React.Children.toArray(children).some(child => isValidElement(child) && componentName === "Latex")\<close>.
\<close>

fun isLatexElement :: "(string \<Rightarrow> string option) \<Rightarrow> rnode \<Rightarrow> bool" where
  "isLatexElement importName (Elem t ps cs) = (componentName importName t = Some ''Latex'')"
| "isLatexElement importName n = False"

definition hasLatexComponent :: "(string \<Rightarrow> string option) \<Rightarrow> rnode \<Rightarrow> bool" where
  "hasLatexComponent importName children = list_ex (isLatexElement importName) (toArray children)"

text \<open>
  The two delimiter sets handed to the math component, and the element itself. The
  component is the default export of \<open>react-latex-next\<close>, imported as \<open>Latex\<close>.
\<close>

definition blockDelimiters :: "(string \<times> string \<times> bool) list" where
  "blockDelimiters = [(''$$'', ''$$'', True), ([bslash, CHR ''[''], [bslash, CHR '']''], True)]"

definition inlineDelimiters :: "(string \<times> string \<times> bool) list" where
  "inlineDelimiters = [(''$'', ''$'', False), ([bslash, CHR ''(''], [bslash, CHR '')''], False)]"

definition Latex :: "(string \<times> string \<times> bool) list \<Rightarrow> string \<Rightarrow> rnode" where
  "Latex delimiters src =
     Elem (Imported ''Latex'') [(''delimiters'', PDelims delimiters), (''strict'', PBool False)]
       [Str src]"


text \<open>The element \<open><WordByWordFadeIn>{children}</WordByWordFadeIn>\<close>.\<close>

definition WordByWordFadeIn :: "rnode \<Rightarrow> rnode" where
  "WordByWordFadeIn children = Elem (Component ''WordByWordFadeIn'') [] [children]"

section \<open>The renderer callbacks\<close>

subsection \<open>\<open>text\<close>\<close>

text \<open>\<open>allMatches\<close>: the matches of the block marker, then those of the inline marker, sorted
  by \<open>match.index\<close> (the sort of an array is stable).\<close>

definition allMatches :: "string \<Rightarrow> ((nat \<times> string) \<times> bool) list" where
  "allMatches text =
     sort_key (\<lambda>(m, isB). fst m)
       (map (\<lambda>m. (m, True)) (exec_all BlockMarker 0 text) @
        map (\<lambda>m. (m, False)) (exec_all InlineMarker 0 text))"

text \<open>What the loop over \<open>allMatches\<close> pushes for the match itself: the math element of the
  entry whose id is the matched text, or the matched text as prose when there is none.\<close>

definition match_unit :: "latex_block list \<Rightarrow> (nat \<times> string) \<times> bool \<Rightarrow> rnode" where
  "match_unit latexBlocks = (\<lambda>((start, fullMatch), isB).
     (case find (\<lambda>block. id_str block = fullMatch) latexBlocks of
        Some latexBlock \<Rightarrow>
          if isB then Latex blockDelimiters (content latexBlock)
          else Latex inlineDelimiters (content latexBlock)
      | None \<Rightarrow> WordByWordFadeIn (Str fullMatch)))"

text \<open>One turn of the loop, on the state \<open>(components, lastEnd)\<close>.\<close>

definition process_match ::
  "latex_block list \<Rightarrow> string \<Rightarrow> rnode list \<times> nat \<Rightarrow> (nat \<times> string) \<times> bool \<Rightarrow> rnode list \<times> nat"
where
  "process_match latexBlocks text = (\<lambda>(components, lastEnd) ((start, fullMatch), isB).
     (let components1 =
            (if start > lastEnd
             then components @ [WordByWordFadeIn (Str (slice text lastEnd start))]
             else components)
      in (components1 @ [match_unit latexBlocks ((start, fullMatch), isB)],
          start + length fullMatch)))"

text \<open>The components of the mixed path: the loop, then the text that remains.\<close>

definition mixed_components :: "latex_block list \<Rightarrow> string \<Rightarrow> rnode list" where
  "mixed_components latexBlocks text =
     (let (components, lastEnd) =
            foldl (process_match latexBlocks text) ([], 0) (allMatches text)
      in if lastEnd < length text
         then components @ [WordByWordFadeIn (Str (drop lastEnd text))]
         else components)"

definition mixed_content :: "latex_block list \<Rightarrow> string \<Rightarrow> rnode" where
  "mixed_content latexBlocks text = Elem (Host ''span'') [] [Arr (mixed_components latexBlocks text)]"

text \<open>The callback \<open>text(text)\<close> of the renderer, which closes over \<open>latexBlocks\<close>.\<close>

definition text_render :: "latex_block list \<Rightarrow> string \<Rightarrow> rnode" where
  "text_render latexBlocks text =
     (if \<not> test BlockMarker text \<and> \<not> test InlineMarker text
      then WordByWordFadeIn (Str text)
      else
        (case (if match_whole BlockMarker text
               then find (\<lambda>block. id_str block = text) latexBlocks else None) of
           Some latexBlock \<Rightarrow> Latex blockDelimiters (content latexBlock)
         | None \<Rightarrow>
            (case (if match_whole InlineMarker text
                   then find (\<lambda>block. id_str block = text) latexBlocks else None) of
               Some latexBlock \<Rightarrow> Latex inlineDelimiters (content latexBlock)
             | None \<Rightarrow> mixed_content latexBlocks text)))"

text \<open>
  The resolver in the words of the specification. A gap of prose is one Literal unit, and
  no unit when the gap is empty; \<open>gaps_between text lastEnd ms\<close> are the gaps of \<open>text\<close> in front
  of each match of \<open>ms\<close>, the first one starting at \<open>lastEnd\<close>, and \<open>end_of_matches\<close> is where
  the last match ends.
\<close>

definition literal :: "string \<Rightarrow> rnode list" where
  "literal g = (if g = [] then [] else [WordByWordFadeIn (Str g)])"

fun gaps_between :: "string \<Rightarrow> nat \<Rightarrow> ((nat \<times> string) \<times> bool) list \<Rightarrow> string list" where
  "gaps_between text lastEnd [] = []"
| "gaps_between text lastEnd (((start, fullMatch), isB) # ms) =
     slice text lastEnd start # gaps_between text (start + length fullMatch) ms"

fun end_of_matches :: "nat \<Rightarrow> ((nat \<times> string) \<times> bool) list \<Rightarrow> nat" where
  "end_of_matches lastEnd [] = lastEnd"
| "end_of_matches lastEnd (((start, fullMatch), isB) # ms) =
     end_of_matches (start + length fullMatch) ms"

text \<open>
  What a render tree hands to the math component: the string children of the \<open>Latex\<close>
  elements in it.
\<close>

fun string_child :: "rnode \<Rightarrow> string list" where
  "string_child (Str s) = [s]"
| "string_child n = []"

fun latex_sources :: "rnode \<Rightarrow> string list" where
  "latex_sources Null = []"
| "latex_sources (Str s) = []"
| "latex_sources (Arr xs) = concat (map latex_sources xs)"
| "latex_sources (Elem t ps cs) =
     (if t = Imported ''Latex'' then concat (map string_child cs)
      else concat (map latex_sources cs))"

subsection \<open>\<open>paragraph\<close>\<close>

definition paragraph_render :: "latex_block list \<Rightarrow> rnode \<Rightarrow> rnode" where
  "paragraph_render latexBlocks children =
     (let regular = Elem (Host ''p'') [(''className'', PStr ''leading-6 my-4 break-words'')] [children]
      in case children of
           Str s \<Rightarrow>
             if match_whole BlockMarker s
             then (case find (\<lambda>block. id_str block = s) latexBlocks of
                     Some latexBlock \<Rightarrow>
                       if isBlock latexBlock
                       then Elem (Host ''div'') [(''className'', PStr ''my-6 text-center'')]
                              [Latex blockDelimiters (content latexBlock)]
                       else regular
                   | None \<Rightarrow> regular)
             else regular
         | _ \<Rightarrow> regular)"

text \<open>
  Modelled from the spec: the structural parser (\<open>marked-react\<close>) is not part of the source.
  By its interface in the specification (\<open>onText(string) -> RenderNode\<close>,
  \<open>onParagraph(children) -> RenderNode\<close>) it renders a leaf text with the text callback and
  hands the paragraph callback the children it has rendered. \<open>paragraph_of_leaf\<close> is the
  render of a paragraph whose content is the one leaf text.
\<close>

definition paragraph_of_leaf :: "latex_block list \<Rightarrow> string \<Rightarrow> rnode" where
  "paragraph_of_leaf latexBlocks leaf =
     paragraph_render latexBlocks (Arr [text_render latexBlocks leaf])"

subsection \<open>The callbacks that wrap their children\<close>









section \<open>The component\<close>

text \<open>
  \<open>NonMemoizedMarkdown\<close>. \<open>isJson\<close> of \<open>lib/utils\<close> is not part of the component: what
  \<open>isJson(children)\<close> returns is the parameter \<open>isJsonChildren\<close>. The hook \<open>useMemo\<close> runs its
  callback whenever \<open>children\<close> is new and keeps what it returned: \<open>memo\<close> is that cell after
  the render, \<open>tree\<close> is the element returned. The renderer object is the closure of the
  callbacks over \<open>latexBlocks\<close>, so the prop \<open>renderer\<close> of \<open>Marked\<close> is that store.
\<close>

record render_result =
  memo :: "string \<times> latex_block list"
  tree :: rnode

definition NonMemoizedMarkdown :: "bool \<Rightarrow> string \<Rightarrow> render_result" where
  "NonMemoizedMarkdown isJsonChildren children =
     (let (processedContent, latexBlocks) = extractLatex children in
      \<lparr>memo = (processedContent, latexBlocks),
       tree = Elem (Host ''article'') [(''className'', PStr ''w-full h-full relative'')]
                [if isJsonChildren
                 then Elem (Imported ''JsonView'') [(''data'', PStr children)] []
                 else Elem (Host ''div'') []
                        [Elem (Imported ''Marked'') [(''renderer'', PStore latexBlocks)]
                           [Str processedContent]]]\<rparr>)"

section \<open>Facts about the model\<close>

subsection \<open>Decimal numerals and marker ids\<close>

lemma digit_char_inj: "a < 10 \<Longrightarrow> b < 10 \<Longrightarrow> digit_char a = digit_char b \<Longrightarrow> a = b"
proof -
  assume a: "a < 10" and b: "b < 10" and e: "digit_char a = digit_char b"
  have d: "distinct ''0123456789''" by simp
  have "a < length ''0123456789''" "b < length ''0123456789''" using a b by simp_all
  with d e show "a = b" unfolding digit_char_def by (simp only: nth_eq_iff_index_eq)
qed

lemma show_nat_nonempty: "show_nat n \<noteq> []"
  by (subst show_nat.simps) simp

lemma show_nat_inj: "show_nat a = show_nat b \<Longrightarrow> a = b"
proof (induction a arbitrary: b rule: show_nat.induct)
  case (1 n)
  show ?case
  proof (cases "n < 10")
    case True
    show ?thesis
    proof (cases "b < 10")
      case b: True
      from "1.prems" True b have "digit_char n = digit_char b"
        by (simp add: show_nat.simps[of n] show_nat.simps[of b])
      with True b show ?thesis by (rule digit_char_inj)
    next
      case b: False
      from "1.prems" True b have "[digit_char n] = show_nat (b div 10) @ [digit_char (b mod 10)]"
        by (simp add: show_nat.simps[of n] show_nat.simps[of b])
      then show ?thesis using show_nat_nonempty[of "b div 10"] by simp
    qed
  next
    case False
    show ?thesis
    proof (cases "b < 10")
      case b: True
      from "1.prems" False b have "show_nat (n div 10) @ [digit_char (n mod 10)] = [digit_char b]"
        by (simp add: show_nat.simps[of n] show_nat.simps[of b])
      then show ?thesis using show_nat_nonempty[of "n div 10"] by simp
    next
      case b: False
      from "1.prems" False b
      have e: "show_nat (n div 10) @ [digit_char (n mod 10)] = show_nat (b div 10) @ [digit_char (b mod 10)]"
        by (simp add: show_nat.simps[of n] show_nat.simps[of b])
      then have e1: "show_nat (n div 10) = show_nat (b div 10)"
        and e2: "digit_char (n mod 10) = digit_char (b mod 10)" by simp_all
      from "1.IH"[OF False e1] have q: "n div 10 = b div 10" .
      have r: "n mod 10 = b mod 10" by (rule digit_char_inj[OF _ _ e2]) simp_all
      from q r show ?thesis by (metis div_mult_mod_eq)
    qed
  qed
qed

lemma block_id_inj: "block_id a = block_id b \<Longrightarrow> a = b"
  by (simp add: block_id_def show_nat_inj)

lemma inline_id_inj: "inline_id a = inline_id b \<Longrightarrow> a = b"
  by (simp add: inline_id_def show_nat_inj)

lemma block_inline_id: "block_id a \<noteq> inline_id b"
  by (simp add: block_id_def inline_id_def)

subsection \<open>Matches and the replace loop\<close>

lemma find_sub_bound: "find_sub needle s = Some k \<Longrightarrow> k + length needle \<le> length s"
proof (induction s arbitrary: k)
  case Nil
  then show ?case by (simp split: if_splits)
next
  case (Cons c cs)
  show ?case
  proof (cases "prefix needle (c # cs)")
    case True
    with Cons.prems have "k = 0" by simp
    with prefix_length_le[OF True] show ?thesis by simp
  next
    case False
    with Cons.prems obtain k' where "find_sub needle cs = Some k'" "k = Suc k'" by auto
    with Cons.IH show ?thesis by auto
  qed
qed

lemma takeWhile_dropWhile_length: "length (takeWhile P xs) + length (dropWhile P xs) = length xs"
  by (metis length_append takeWhile_dropWhile_id)

lemma match_delimited_pos:
  "match_delimited opening closing s = Some n \<Longrightarrow> opening \<noteq> [] \<Longrightarrow> 0 < n \<and> n \<le> length s"
  by (auto simp: match_delimited_def split: if_splits option.splits
      dest!: find_sub_bound prefix_length_le)

lemma match_single_dollar_pos: "match_single_dollar s = Some n \<Longrightarrow> 0 < n \<and> n \<le> length s"
proof -
  assume a: "match_single_dollar s = Some n"
  then obtain c r where s: "s = c # r" by (cases s) (auto simp: match_single_dollar_def)
  from a s have n: "n = length (takeWhile math_char r) + 2" and p: "prefix ''$'' (dropWhile math_char r)"
    by (auto simp: match_single_dollar_def split: if_splits)
  from p have "1 \<le> length (dropWhile math_char r)" by (auto dest: prefix_length_le)
  with takeWhile_dropWhile_length[of math_char r] n s show ?thesis by simp
qed

lemma match_marker_pos: "match_marker name s = Some n \<Longrightarrow> 0 < n \<and> n \<le> length s"
proof -
  assume a: "match_marker name s = Some n"
  let ?r = "drop (length name) s"
  from a have pn: "prefix name s" and n: "n = length name + length (takeWhile is_digit ?r) + 3"
    and p: "prefix ''END'' (dropWhile is_digit ?r)"
    by (auto simp: match_marker_def Let_def split: if_splits)
  from p have "3 \<le> length (dropWhile is_digit ?r)" by (auto dest: prefix_length_le)
  moreover from pn have "length name \<le> length s" by (rule prefix_length_le)
  ultimately show ?thesis using takeWhile_dropWhile_length[of is_digit ?r] n by simp
qed

lemma match_at_pos: "match_at p s = Some n \<Longrightarrow> 0 < n \<and> n \<le> length s"
  by (cases p) (auto dest: match_delimited_pos match_single_dollar_pos match_marker_pos)

lemma replace_all_Nil: "replace_all mk p isB [] bl = ([], bl)"
  by (simp add: replace_all.simps)

lemma replace_all_None:
  "s \<noteq> [] \<Longrightarrow> match_at p s = None \<Longrightarrow>
   replace_all mk p isB s bl = (hd s # fst (replace_all mk p isB (tl s) bl), snd (replace_all mk p isB (tl s) bl))"
  by (subst replace_all.simps) (simp add: case_prod_beta)

lemma replace_all_Some:
  "s \<noteq> [] \<Longrightarrow> match_at p s = Some n \<Longrightarrow>
   replace_all mk p isB s bl =
     (mk (length bl) @ fst (replace_all mk p isB (drop n s) (bl @ [\<lparr>id_str = mk (length bl), content = take n s, isBlock = isB\<rparr>])),
      snd (replace_all mk p isB (drop n s) (bl @ [\<lparr>id_str = mk (length bl), content = take n s, isBlock = isB\<rparr>])))"
  by (subst replace_all.simps) (simp add: case_prod_beta)

lemma replace_all_new:
  "\<exists>new. snd (replace_all mk p isB s bl) = bl @ new \<and>
     (\<forall>i<length new. id_str (new ! i) = mk (length bl + i) \<and> isBlock (new ! i) = isB)"
proof (induction mk p isB s bl rule: replace_all.induct)
  case (1 mk p isB s bl)
  show ?case
  proof (cases "s = []")
    case True
    then show ?thesis by (simp add: replace_all_Nil)
  next
    case False
    show ?thesis
    proof (cases "match_at p s")
      case None
      from "1.IH"(1)[OF False None] obtain new where
        "snd (replace_all mk p isB (tl s) bl) = bl @ new"
        "\<forall>i<length new. id_str (new ! i) = mk (length bl + i) \<and> isBlock (new ! i) = isB" by blast
      then show ?thesis by (simp add: replace_all_None[OF False None])
    next
      case (Some n)
      let ?e = "\<lparr>id_str = mk (length bl), content = take n s, isBlock = isB\<rparr>"
      from "1.IH"(2)[OF False Some] obtain new where
        n1: "snd (replace_all mk p isB (drop n s) (bl @ [?e])) = (bl @ [?e]) @ new"
        and n2: "\<forall>i<length new. id_str (new ! i) = mk (length (bl @ [?e]) + i) \<and> isBlock (new ! i) = isB" by blast
      have "\<forall>i<length (?e # new). id_str ((?e # new) ! i) = mk (length bl + i) \<and> isBlock ((?e # new) ! i) = isB"
      proof (intro allI impI)
        fix i assume "i < length (?e # new)"
        then show "id_str ((?e # new) ! i) = mk (length bl + i) \<and> isBlock ((?e # new) ! i) = isB"
          using n2 by (cases i) auto
      qed
      moreover have "snd (replace_all mk p isB s bl) = bl @ (?e # new)"
        using n1 by (simp add: replace_all_Some[OF False Some])
      ultimately show ?thesis by blast
    qed
  qed
qed

lemma replace_all_unchanged: "snd (replace_all mk p isB s bl) = bl \<Longrightarrow> fst (replace_all mk p isB s bl) = s"
proof (induction mk p isB s bl rule: replace_all.induct)
  case (1 mk p isB s bl)
  show ?case
  proof (cases "s = []")
    case True
    then show ?thesis by (simp add: replace_all_Nil)
  next
    case False
    show ?thesis
    proof (cases "match_at p s")
      case None
      from "1.prems" have "snd (replace_all mk p isB (tl s) bl) = bl"
        by (simp add: replace_all_None[OF False None])
      from "1.IH"(1)[OF False None this] False show ?thesis
        by (simp add: replace_all_None[OF False None])
    next
      case (Some n)
      let ?e = "\<lparr>id_str = mk (length bl), content = take n s, isBlock = isB\<rparr>"
      from replace_all_new[of mk p isB "drop n s" "bl @ [?e]"] obtain new where
        "snd (replace_all mk p isB (drop n s) (bl @ [?e])) = (bl @ [?e]) @ new" by blast
      with "1.prems" have "bl @ ?e # new = bl" by (simp add: replace_all_Some[OF False Some])
      then show ?thesis by simp
    qed
  qed
qed

lemma replace_all_no_match: "search p s = None \<Longrightarrow> replace_all mk p isB s bl = (s, bl)"
proof (induction s)
  case Nil
  show ?case by (simp add: replace_all_Nil)
next
  case (Cons c cs)
  from Cons.prems have m: "match_at p (c # cs) = None" and r: "search p cs = None"
    by (auto split: option.splits)
  from Cons.IH[OF r] show ?case by (simp add: replace_all_None[OF _ m])
qed

lemma replace_all_single:
  "snd (replace_all mk p isB s bl) = bl @ [b] \<Longrightarrow>
   \<exists>pre post. s = pre @ content b @ post \<and> fst (replace_all mk p isB s bl) = pre @ id_str b @ post \<and>
     id_str b = mk (length bl) \<and> isBlock b = isB \<and>
     match_at p (content b @ post) = Some (length (content b))"
proof (induction mk p isB s bl rule: replace_all.induct)
  case (1 mk p isB s bl)
  show ?case
  proof (cases "s = []")
    case True
    with "1.prems" show ?thesis by (simp add: replace_all_Nil)
  next
    case False
    show ?thesis
    proof (cases "match_at p s")
      case None
      from "1.prems" have "snd (replace_all mk p isB (tl s) bl) = bl @ [b]"
        by (simp add: replace_all_None[OF False None])
      from "1.IH"(1)[OF False None this] obtain pre post where
        h: "tl s = pre @ content b @ post" "fst (replace_all mk p isB (tl s) bl) = pre @ id_str b @ post"
          "id_str b = mk (length bl)" "isBlock b = isB"
          "match_at p (content b @ post) = Some (length (content b))" by blast
      from h(1) False have "s = (hd s # pre) @ content b @ post" by (cases s) simp_all
      moreover from h(2) have "fst (replace_all mk p isB s bl) = (hd s # pre) @ id_str b @ post"
        by (simp add: replace_all_None[OF False None])
      ultimately show ?thesis using h(3-5) by blast
    next
      case (Some n)
      let ?e = "\<lparr>id_str = mk (length bl), content = take n s, isBlock = isB\<rparr>"
      from replace_all_new[of mk p isB "drop n s" "bl @ [?e]"] obtain new where
        n1: "snd (replace_all mk p isB (drop n s) (bl @ [?e])) = (bl @ [?e]) @ new" by blast
      with "1.prems" have "bl @ ?e # new = bl @ [b]" by (simp add: replace_all_Some[OF False Some])
      then have b: "b = ?e" and "new = []" by simp_all
      with n1 have "snd (replace_all mk p isB (drop n s) (bl @ [?e])) = bl @ [?e]" by simp
      then have u: "fst (replace_all mk p isB (drop n s) (bl @ [?e])) = drop n s"
        by (rule replace_all_unchanged)
      from match_at_pos[OF Some] have nl: "n \<le> length s" by simp
      have "s = [] @ content b @ drop n s" using b by simp
      moreover have "fst (replace_all mk p isB s bl) = [] @ id_str b @ drop n s"
        using u b by (simp add: replace_all_Some[OF False Some])
      moreover have "match_at p (content b @ drop n s) = Some (length (content b))"
        using b Some nl by simp
      ultimately show ?thesis using b by (metis latex_block.select_convs(1,3))
    qed
  qed
qed

subsection \<open>The passes of the extraction\<close>

lemma forEach_Nil: "forEach_replace mk [] st = st"
  by (simp add: forEach_replace_def)

lemma forEach_Cons:
  "forEach_replace mk ((p, isB) # ps) (s, bl) = forEach_replace mk ps (replace_all mk p isB s bl)"
  by (simp add: forEach_replace_def)

lemma forEach_new:
  "\<exists>new. snd (forEach_replace mk ps (s, bl)) = bl @ new \<and>
     (\<forall>i<length new. id_str (new ! i) = mk (length bl + i) \<and> isBlock (new ! i) \<in> snd ` set ps)"
proof (induction ps arbitrary: s bl)
  case Nil
  show ?case by (simp add: forEach_Nil)
next
  case (Cons q ps)
  obtain p isB where q: "q = (p, isB)" by (cases q)
  obtain s1 bl1 where r: "replace_all mk p isB s bl = (s1, bl1)" by (cases "replace_all mk p isB s bl")
  from replace_all_new[of mk p isB s bl] r obtain new1 where
    n1: "bl1 = bl @ new1" and
    i1: "\<forall>i<length new1. id_str (new1 ! i) = mk (length bl + i) \<and> isBlock (new1 ! i) = isB" by auto
  from Cons.IH[of s1 bl1] obtain new2 where
    n2: "snd (forEach_replace mk ps (s1, bl1)) = bl1 @ new2" and
    i2: "\<forall>i<length new2. id_str (new2 ! i) = mk (length bl1 + i) \<and> isBlock (new2 ! i) \<in> snd ` set ps" by blast
  have "snd (forEach_replace mk (q # ps) (s, bl)) = bl @ (new1 @ new2)"
    using q r n1 n2 by (simp add: forEach_Cons)
  moreover have "\<forall>i<length (new1 @ new2). id_str ((new1 @ new2) ! i) = mk (length bl + i) \<and>
      isBlock ((new1 @ new2) ! i) \<in> snd ` set (q # ps)"
  proof (intro allI impI)
    fix i assume il: "i < length (new1 @ new2)"
    show "id_str ((new1 @ new2) ! i) = mk (length bl + i) \<and> isBlock ((new1 @ new2) ! i) \<in> snd ` set (q # ps)"
    proof (cases "i < length new1")
      case True
      with i1 q show ?thesis by (simp add: nth_append)
    next
      case False
      with il have "i - length new1 < length new2" by simp
      with i2 have "id_str (new2 ! (i - length new1)) = mk (length bl1 + (i - length new1))"
        "isBlock (new2 ! (i - length new1)) \<in> snd ` set ps" by simp_all
      with False n1 show ?thesis by (simp add: nth_append)
    qed
  qed
  ultimately show ?case by blast
qed

lemma forEach_unchanged:
  "snd (forEach_replace mk ps (s, bl)) = bl \<Longrightarrow> fst (forEach_replace mk ps (s, bl)) = s"
proof (induction ps arbitrary: s bl)
  case Nil
  show ?case by (simp add: forEach_Nil)
next
  case (Cons q ps)
  obtain p isB where q: "q = (p, isB)" by (cases q)
  obtain s1 bl1 where r: "replace_all mk p isB s bl = (s1, bl1)" by (cases "replace_all mk p isB s bl")
  from replace_all_new[of mk p isB s bl] r obtain new1 where n1: "bl1 = bl @ new1" by auto
  from forEach_new[of mk ps s1 bl1] obtain new2 where
    n2: "snd (forEach_replace mk ps (s1, bl1)) = bl1 @ new2" by blast
  from Cons.prems q r n1 n2 have "bl @ new1 @ new2 = bl" by (simp add: forEach_Cons)
  then have e: "new1 = []" "new2 = []" by simp_all
  from e n1 r have "snd (replace_all mk p isB s bl) = bl" by simp
  then have "fst (replace_all mk p isB s bl) = s" by (rule replace_all_unchanged)
  with r have s1: "s1 = s" by simp
  from e n1 n2 have "snd (forEach_replace mk ps (s1, bl1)) = bl1" by simp
  from Cons.IH[OF this] s1 q r show ?case by (simp add: forEach_Cons)
qed

lemma forEach_single:
  "snd (forEach_replace mk ps (s, bl)) = bl @ [b] \<Longrightarrow>
   \<exists>pre post p. s = pre @ content b @ post \<and> fst (forEach_replace mk ps (s, bl)) = pre @ id_str b @ post \<and>
     id_str b = mk (length bl) \<and> (p, isBlock b) \<in> set ps \<and>
     match_at p (content b @ post) = Some (length (content b))"
proof (induction ps arbitrary: s bl)
  case Nil
  then show ?case by (simp add: forEach_Nil)
next
  case (Cons q ps)
  obtain p isB where q: "q = (p, isB)" by (cases q)
  obtain s1 bl1 where r: "replace_all mk p isB s bl = (s1, bl1)" by (cases "replace_all mk p isB s bl")
  from replace_all_new[of mk p isB s bl] r obtain new1 where n1: "bl1 = bl @ new1" by auto
  from forEach_new[of mk ps s1 bl1] obtain new2 where
    n2: "snd (forEach_replace mk ps (s1, bl1)) = bl1 @ new2" by blast
  from Cons.prems q r n1 n2 have "bl @ new1 @ new2 = bl @ [b]" by (simp add: forEach_Cons)
  then have "new1 @ new2 = [b]" by simp
  then consider "new1 = [b]" "new2 = []" | "new1 = []" "new2 = [b]"
    by (auto simp: append_eq_Cons_conv)
  then show ?case
  proof cases
    case 1
    from 1 n1 r have "snd (replace_all mk p isB s bl) = bl @ [b]" by simp
    from replace_all_single[OF this] r obtain pre post where
      h: "s = pre @ content b @ post" "s1 = pre @ id_str b @ post" "id_str b = mk (length bl)"
        "isBlock b = isB" "match_at p (content b @ post) = Some (length (content b))" by auto
    from 1 n2 have "snd (forEach_replace mk ps (s1, bl1)) = bl1" by simp
    then have "fst (forEach_replace mk ps (s1, bl1)) = s1" by (rule forEach_unchanged)
    with h q r have "fst (forEach_replace mk (q # ps) (s, bl)) = pre @ id_str b @ post"
      by (simp add: forEach_Cons)
    moreover from h q have "(p, isBlock b) \<in> set (q # ps)" by simp
    ultimately show ?thesis using h(1,3,5) by blast
  next
    case 2
    from 2 n1 r have "snd (replace_all mk p isB s bl) = bl" by simp
    then have "fst (replace_all mk p isB s bl) = s" by (rule replace_all_unchanged)
    with r have s1: "s1 = s" by simp
    from 2 n1 have bl1: "bl1 = bl" by simp
    from 2 n2 bl1 have "snd (forEach_replace mk ps (s, bl)) = bl @ [b]" using s1 by simp
    from Cons.IH[OF this] obtain pre post p' where
      h: "s = pre @ content b @ post" "fst (forEach_replace mk ps (s, bl)) = pre @ id_str b @ post"
        "id_str b = mk (length bl)" "(p', isBlock b) \<in> set ps"
        "match_at p' (content b @ post) = Some (length (content b))" by blast
    from h(2) q r s1 bl1 have "fst (forEach_replace mk (q # ps) (s, bl)) = pre @ id_str b @ post"
      by (simp add: forEach_Cons)
    moreover from h(4) have "(p', isBlock b) \<in> set (q # ps)" by simp
    ultimately show ?thesis using h(1,3,5) by blast
  qed
qed

lemma forEach_no_match:
  "\<forall>q\<in>set ps. search (fst q) s = None \<Longrightarrow> forEach_replace mk ps (s, bl) = (s, bl)"
  by (induction ps) (auto simp: forEach_Nil forEach_Cons replace_all_no_match)

lemma weave_Cons_head: "weave ((c # g) # gs) ts = c # weave (g # gs) ts"
  by (cases ts) simp_all

lemma replace_all_weave:
  "\<exists>gaps new. length gaps = Suc (length new) \<and> snd (replace_all mk p isB s bl) = bl @ new \<and>
     s = weave gaps (map content new) \<and>
     fst (replace_all mk p isB s bl) = weave gaps (map id_str new)"
proof (induction mk p isB s bl rule: replace_all.induct)
  case (1 mk p isB s bl)
  show ?case
  proof (cases "s = []")
    case True
    have "length [[]::string] = Suc (length ([]::latex_block list))" by simp
    moreover have "snd (replace_all mk p isB s bl) = bl @ []" using True by (simp add: replace_all_Nil)
    moreover have "s = weave [[]] (map content [])" using True by simp
    moreover have "fst (replace_all mk p isB s bl) = weave [[]] (map id_str [])"
      using True by (simp add: replace_all_Nil)
    ultimately show ?thesis by blast
  next
    case False
    show ?thesis
    proof (cases "match_at p s")
      case None
      from "1.IH"(1)[OF False None] obtain gaps new where
        h: "length gaps = Suc (length new)" "snd (replace_all mk p isB (tl s) bl) = bl @ new"
          "tl s = weave gaps (map content new)"
          "fst (replace_all mk p isB (tl s) bl) = weave gaps (map id_str new)" by blast
      from h(1) obtain g gs where g: "gaps = g # gs" by (cases gaps) auto
      have "length ((hd s # g) # gs) = Suc (length new)" using h(1) g by simp
      moreover have "snd (replace_all mk p isB s bl) = bl @ new"
        using h(2) by (simp add: replace_all_None[OF False None])
      moreover have "s = weave ((hd s # g) # gs) (map content new)"
        using h(3) g False by (cases s) (simp_all add: weave_Cons_head)
      moreover have "fst (replace_all mk p isB s bl) = weave ((hd s # g) # gs) (map id_str new)"
        using h(4) g by (simp add: replace_all_None[OF False None] weave_Cons_head)
      ultimately show ?thesis by blast
    next
      case (Some n)
      let ?e = "\<lparr>id_str = mk (length bl), content = take n s, isBlock = isB\<rparr>"
      from "1.IH"(2)[OF False Some] obtain gaps new where
        h: "length gaps = Suc (length new)"
          "snd (replace_all mk p isB (drop n s) (bl @ [?e])) = (bl @ [?e]) @ new"
          "drop n s = weave gaps (map content new)"
          "fst (replace_all mk p isB (drop n s) (bl @ [?e])) = weave gaps (map id_str new)" by blast
      have "length ([] # gaps) = Suc (length (?e # new))" using h(1) by simp
      moreover have "snd (replace_all mk p isB s bl) = bl @ (?e # new)"
        using h(2) by (simp add: replace_all_Some[OF False Some])
      moreover have "s = weave ([] # gaps) (map content (?e # new))"
        using h(3)[symmetric] by simp
      moreover have "fst (replace_all mk p isB s bl) = weave ([] # gaps) (map id_str (?e # new))"
        using h(4) by (simp add: replace_all_Some[OF False Some])
      ultimately show ?thesis by blast
    qed
  qed
qed

subsection \<open>The extraction as a whole\<close>

lemma show_nat_0: "show_nat 0 = ''0''"
  by (simp add: show_nat.simps digit_char_def)

lemma extract_split:
  "\<exists>nb ni. snd (forEach_replace block_id blockPatterns (raw, [])) = nb \<and>
     snd (extractLatex raw) = nb @ ni \<and>
     (\<forall>i<length nb. id_str (nb ! i) = block_id i \<and> isBlock (nb ! i)) \<and>
     (\<forall>i<length ni. id_str (ni ! i) = inline_id (length nb + i) \<and> \<not> isBlock (ni ! i))"
proof -
  obtain c nb where st: "forEach_replace block_id blockPatterns (raw, []) = (c, nb)"
    by (cases "forEach_replace block_id blockPatterns (raw, [])")
  from forEach_new[of block_id blockPatterns raw "[]"] st
  have b: "\<forall>i<length nb. id_str (nb ! i) = block_id i \<and> isBlock (nb ! i)"
    by (auto simp: blockPatterns_def)
  from forEach_new[of inline_id inlinePatterns c nb] obtain ni where
    n: "snd (forEach_replace inline_id inlinePatterns (c, nb)) = nb @ ni" and
    i: "\<forall>i<length ni. id_str (ni ! i) = inline_id (length nb + i) \<and> isBlock (ni ! i) \<in> snd ` set inlinePatterns"
    by blast
  from i have "\<forall>i<length ni. id_str (ni ! i) = inline_id (length nb + i) \<and> \<not> isBlock (ni ! i)"
    by (auto simp: inlinePatterns_def)
  with st n b show ?thesis by (simp add: extractLatex_def)
qed

lemma extract_ids:
  assumes "i < length (snd (extractLatex raw))"
  shows "id_str (snd (extractLatex raw) ! i) =
     (if isBlock (snd (extractLatex raw) ! i) then block_id i else inline_id i)"
proof -
  from extract_split[of raw] obtain nb ni where
    e: "snd (extractLatex raw) = nb @ ni" and
    b: "\<forall>i<length nb. id_str (nb ! i) = block_id i \<and> isBlock (nb ! i)" and
    n: "\<forall>i<length ni. id_str (ni ! i) = inline_id (length nb + i) \<and> \<not> isBlock (ni ! i)" by blast
  show ?thesis
  proof (cases "i < length nb")
    case True
    with b e show ?thesis by (simp add: nth_append)
  next
    case False
    with assms e have "i - length nb < length ni" by simp
    with n have "id_str (ni ! (i - length nb)) = inline_id (length nb + (i - length nb))"
      "\<not> isBlock (ni ! (i - length nb))" by simp_all
    with False e show ?thesis by (simp add: nth_append)
  qed
qed

lemma extract_distinct: "distinct (map id_str (snd (extractLatex raw)))"
proof -
  let ?bs = "snd (extractLatex raw)"
  have "\<And>i j. i < length ?bs \<Longrightarrow> j < length ?bs \<Longrightarrow> id_str (?bs ! i) = id_str (?bs ! j) \<Longrightarrow> i = j"
  proof -
    fix i j assume i: "i < length ?bs" and j: "j < length ?bs" and e: "id_str (?bs ! i) = id_str (?bs ! j)"
    from e extract_ids[OF i] extract_ids[OF j] show "i = j"
      using block_inline_id[of i j] block_inline_id[of j i]
      by (auto split: if_splits dest: block_id_inj inline_id_inj)
  qed
  then show ?thesis by (auto simp: distinct_conv_nth)
qed

lemma filter_unique:
  "distinct (map f xs) \<Longrightarrow> b \<in> set xs \<Longrightarrow> filter (\<lambda>x. f x = f b) xs = [b]"
  by (induction xs) (auto simp: filter_empty_conv image_iff)

lemma extract_passes:
  "\<exists>n1 n2 n3 n4 g1 g2 g3 g4.
     snd (extractLatex raw) = n1 @ n2 @ n3 @ n4
   \<and> length g1 = Suc (length n1) \<and> length g2 = Suc (length n2)
   \<and> length g3 = Suc (length n3) \<and> length g4 = Suc (length n4)
   \<and> raw = weave g1 (map content n1)
   \<and> weave g1 (map id_str n1) = weave g2 (map content n2)
   \<and> weave g2 (map id_str n2) = weave g3 (map content n3)
   \<and> weave g3 (map id_str n3) = weave g4 (map content n4)
   \<and> fst (extractLatex raw) = weave g4 (map id_str n4)"
proof -
  from replace_all_weave[of block_id BracketBlock True raw "[]"] obtain g1 n1 where
    h1: "length g1 = Suc (length n1)" "snd (replace_all block_id BracketBlock True raw []) = n1"
      "raw = weave g1 (map content n1)"
      "fst (replace_all block_id BracketBlock True raw []) = weave g1 (map id_str n1)" by auto
  let ?c1 = "weave g1 (map id_str n1)"
  from replace_all_weave[of block_id DollarBlock True ?c1 n1] obtain g2 n2 where
    h2: "length g2 = Suc (length n2)" "snd (replace_all block_id DollarBlock True ?c1 n1) = n1 @ n2"
      "?c1 = weave g2 (map content n2)"
      "fst (replace_all block_id DollarBlock True ?c1 n1) = weave g2 (map id_str n2)" by auto
  let ?c2 = "weave g2 (map id_str n2)"
  from replace_all_weave[of inline_id ParenInline False ?c2 "n1 @ n2"] obtain g3 n3 where
    h3: "length g3 = Suc (length n3)"
      "snd (replace_all inline_id ParenInline False ?c2 (n1 @ n2)) = (n1 @ n2) @ n3"
      "?c2 = weave g3 (map content n3)"
      "fst (replace_all inline_id ParenInline False ?c2 (n1 @ n2)) = weave g3 (map id_str n3)" by auto
  let ?c3 = "weave g3 (map id_str n3)"
  from replace_all_weave[of inline_id DollarInline False ?c3 "(n1 @ n2) @ n3"] obtain g4 n4 where
    h4: "length g4 = Suc (length n4)"
      "snd (replace_all inline_id DollarInline False ?c3 ((n1 @ n2) @ n3)) = ((n1 @ n2) @ n3) @ n4"
      "?c3 = weave g4 (map content n4)"
      "fst (replace_all inline_id DollarInline False ?c3 ((n1 @ n2) @ n3)) = weave g4 (map id_str n4)"
    by auto
  have r1: "replace_all block_id BracketBlock True raw [] = (?c1, n1)"
    using h1(2,4) by (metis prod.collapse)
  have r2: "replace_all block_id DollarBlock True ?c1 n1 = (?c2, n1 @ n2)"
    using h2(2,4) by (metis prod.collapse)
  have r3: "replace_all inline_id ParenInline False ?c2 (n1 @ n2) = (?c3, (n1 @ n2) @ n3)"
    using h3(2,4) by (metis prod.collapse)
  have r4: "replace_all inline_id DollarInline False ?c3 ((n1 @ n2) @ n3) =
      (weave g4 (map id_str n4), ((n1 @ n2) @ n3) @ n4)"
    using h4(2,4) by (metis prod.collapse)
  have e: "extractLatex raw = (weave g4 (map id_str n4), ((n1 @ n2) @ n3) @ n4)"
    using r1 r2 r3 r4
    by (simp add: extractLatex_def blockPatterns_def inlinePatterns_def forEach_Cons forEach_Nil)
  from e h1(1,3) h2(1,3) h3(1,3) h4(1,3) show ?thesis
    by (intro exI[of _ n1] exI[of _ n2] exI[of _ n3] exI[of _ n4]
        exI[of _ g1] exI[of _ g2] exI[of _ g3] exI[of _ g4]) simp
qed

text \<open>
  Claim C8. In one extraction pass the marker of the entry at index \<open>i\<close> of the store is its
  kind (\<open>LATEXBLOCK\<close> or \<open>LATEXINLINE\<close>), the decimal numeral of \<open>i\<close> and \<open>END\<close>: the sequence
  number is the length of the one store the block and the inline passes share, so the
  markers of a pass are pairwise distinct. The markers put into the text are the ids of
  the store and nothing else: each of the four replacements turns the weave of the
  contents of the entries it appends into the weave of their ids over the same gaps, from
  the input to the substituted text, so every marker substituted has its one entry.
\<close>

theorem C8_marker_ids_shared_counter:
  assumes "extractLatex raw = (processed, blocks)"
  shows "(\<forall>i<length blocks. id_str (blocks ! i) =
           (if isBlock (blocks ! i) then ''LATEXBLOCK'' else ''LATEXINLINE'') @ show_nat i @ ''END'')
       \<and> distinct (map id_str blocks)
       \<and> (\<forall>b\<in>set blocks. filter (\<lambda>x. id_str x = id_str b) blocks = [b])
       \<and> (\<exists>n1 n2 n3 n4 g1 g2 g3 g4.
            blocks = n1 @ n2 @ n3 @ n4
          \<and> length g1 = Suc (length n1) \<and> length g2 = Suc (length n2)
          \<and> length g3 = Suc (length n3) \<and> length g4 = Suc (length n4)
          \<and> raw = weave g1 (map content n1)
          \<and> weave g1 (map id_str n1) = weave g2 (map content n2)
          \<and> weave g2 (map id_str n2) = weave g3 (map content n3)
          \<and> weave g3 (map id_str n3) = weave g4 (map content n4)
          \<and> processed = weave g4 (map id_str n4))"
proof -
  from assms have bs: "snd (extractLatex raw) = blocks" and pr: "fst (extractLatex raw) = processed"
    by simp_all
  have d: "distinct (map id_str blocks)" using extract_distinct[of raw] bs by simp
  have a: "\<forall>i<length blocks. id_str (blocks ! i) =
           (if isBlock (blocks ! i) then ''LATEXBLOCK'' else ''LATEXINLINE'') @ show_nat i @ ''END''"
    using extract_ids[of _ raw] bs by (simp add: block_id_def inline_id_def)
  have c: "\<forall>b\<in>set blocks. filter (\<lambda>x. id_str x = id_str b) blocks = [b]"
    using filter_unique[OF d] by blast
  from extract_passes[of raw] bs pr
  have w: "\<exists>n1 n2 n3 n4 g1 g2 g3 g4.
            blocks = n1 @ n2 @ n3 @ n4
          \<and> length g1 = Suc (length n1) \<and> length g2 = Suc (length n2)
          \<and> length g3 = Suc (length n3) \<and> length g4 = Suc (length n4)
          \<and> raw = weave g1 (map content n1)
          \<and> weave g1 (map id_str n1) = weave g2 (map content n2)
          \<and> weave g2 (map id_str n2) = weave g3 (map content n3)
          \<and> weave g3 (map id_str n3) = weave g4 (map content n4)
          \<and> processed = weave g4 (map id_str n4)" by simp
  from a d c w show ?thesis by blast
qed

theorem C8_witness:
  "extractLatex ''$$ a $$ and $ b $'' = (''LATEXBLOCK0END and LATEXINLINE1END'',
     [\<lparr>id_str = ''LATEXBLOCK0END'', content = ''$$ a $$'', isBlock = True\<rparr>,
      \<lparr>id_str = ''LATEXINLINE1END'', content = ''$ b $'', isBlock = False\<rparr>])
   \<and> distinct (map id_str [\<lparr>id_str = ''LATEXBLOCK0END'', content = ''$$ a $$'', isBlock = True\<rparr>,
      \<lparr>id_str = ''LATEXINLINE1END'', content = ''$ b $'', isBlock = False\<rparr>])"
proof -
  have e: "extractLatex ''$$ a $$ and $ b $'' = (''LATEXBLOCK0END and LATEXINLINE1END'',
     [\<lparr>id_str = ''LATEXBLOCK0END'', content = ''$$ a $$'', isBlock = True\<rparr>,
      \<lparr>id_str = ''LATEXINLINE1END'', content = ''$ b $'', isBlock = False\<rparr>])"
    by code_simp
  from C8_marker_ids_shared_counter[OF e] e show ?thesis by blast
qed

text \<open>
  Claim C9, as the code has it. When none of the four delimiter patterns matches anywhere
  in the input (a delimiter without its closer included), extraction returns the input
  unchanged with an empty store; and when the input does not parse as JSON, what the
  component renders is the structural parser applied to that very text, with a renderer
  over the empty store.
\<close>

theorem C9_no_match_identity:
  assumes "\<forall>p\<in>{BracketBlock, DollarBlock, ParenInline, DollarInline}. search p raw = None"
  shows "extractLatex raw = (raw, []) \<and>
         tree (NonMemoizedMarkdown False raw) =
           Elem (Host ''article'') [(''className'', PStr ''w-full h-full relative'')]
             [Elem (Host ''div'') [] [Elem (Imported ''Marked'') [(''renderer'', PStore [])] [Str raw]]]"
proof -
  from assms have e: "extractLatex raw = (raw, [])"
    by (simp add: extractLatex_def blockPatterns_def inlinePatterns_def forEach_no_match)
  then show ?thesis
    by (simp add: NonMemoizedMarkdown_def)
qed

theorem C9_witness:
  "extractLatex (''it costs $5, and '' @ [bslash] @ ''[ is never closed'') =
     (''it costs $5, and '' @ [bslash] @ ''[ is never closed'', [])
   \<and> tree (NonMemoizedMarkdown False (''it costs $5, and '' @ [bslash] @ ''[ is never closed'')) =
           Elem (Host ''article'') [(''className'', PStr ''w-full h-full relative'')]
             [Elem (Host ''div'') [] [Elem (Imported ''Marked'') [(''renderer'', PStore [])]
                [Str (''it costs $5, and '' @ [bslash] @ ''[ is never closed'')]]]"
proof -
  have h: "\<forall>p\<in>{BracketBlock, DollarBlock, ParenInline, DollarInline}.
      search p (''it costs $5, and '' @ [bslash] @ ''[ is never closed'') = None"
    by (simp add: match_delimited_def match_single_dollar_def math_char_def)
  from C9_no_match_identity[OF h] show ?thesis .
qed

text \<open>
  The input \<open>{"a":1}\<close> has no match of any delimiter pattern and parses as JSON: the
  component renders the JSON viewer, not the structural parser's element.
\<close>

theorem C9_counterexample:
  "search BracketBlock (''{'' @ [CHR 0x22] @ ''a'' @ [CHR 0x22] @ '':1}'') = None
   \<and> search DollarBlock (''{'' @ [CHR 0x22] @ ''a'' @ [CHR 0x22] @ '':1}'') = None
   \<and> search ParenInline (''{'' @ [CHR 0x22] @ ''a'' @ [CHR 0x22] @ '':1}'') = None
   \<and> search DollarInline (''{'' @ [CHR 0x22] @ ''a'' @ [CHR 0x22] @ '':1}'') = None
   \<and> tree (NonMemoizedMarkdown True (''{'' @ [CHR 0x22] @ ''a'' @ [CHR 0x22] @ '':1}'')) =
       Elem (Host ''article'') [(''className'', PStr ''w-full h-full relative'')]
         [Elem (Imported ''JsonView'')
            [(''data'', PStr (''{'' @ [CHR 0x22] @ ''a'' @ [CHR 0x22] @ '':1}''))] []]
   \<and> tree (NonMemoizedMarkdown True (''{'' @ [CHR 0x22] @ ''a'' @ [CHR 0x22] @ '':1}'')) \<noteq>
       Elem (Host ''article'') [(''className'', PStr ''w-full h-full relative'')]
         [Elem (Host ''div'') []
            [Elem (Imported ''Marked'') [(''renderer'', PStore [])]
               [Str (''{'' @ [CHR 0x22] @ ''a'' @ [CHR 0x22] @ '':1}'')]]]"
  by (simp add: NonMemoizedMarkdown_def case_prod_beta match_delimited_def match_single_dollar_def)

subsection \<open>A single span, and the standalone block paragraph\<close>

lemma text_render_block0:
  "id_str b = ''LATEXBLOCK0END'' \<Longrightarrow> text_render [b] ''LATEXBLOCK0END'' = Latex blockDelimiters (content b)"
  by (simp add: text_render_def test_def match_whole_def match_marker_def is_digit_def)

lemma text_render_inline0:
  "id_str b = ''LATEXINLINE0END'' \<Longrightarrow> text_render [b] ''LATEXINLINE0END'' = Latex inlineDelimiters (content b)"
  by (simp add: text_render_def test_def match_whole_def match_marker_def is_digit_def)

lemma extract_single:
  assumes "extractLatex raw = (processed, [b])"
  shows "\<exists>pre post p. raw = pre @ content b @ post \<and> processed = pre @ id_str b @ post \<and>
     match_at p (content b @ post) = Some (length (content b)) \<and>
     ((p, isBlock b) \<in> set blockPatterns \<and> id_str b = block_id 0 \<or>
      (p, isBlock b) \<in> set inlinePatterns \<and> id_str b = inline_id 0)"
proof -
  obtain c nb where st: "forEach_replace block_id blockPatterns (raw, []) = (c, nb)"
    by (cases "forEach_replace block_id blockPatterns (raw, [])")
  from forEach_new[of inline_id inlinePatterns c nb] obtain ni where
    n: "snd (forEach_replace inline_id inlinePatterns (c, nb)) = nb @ ni" by blast
  from assms st have e: "forEach_replace inline_id inlinePatterns (c, nb) = (processed, [b])"
    by (simp add: extractLatex_def)
  with n have "nb @ ni = [b]" by simp
  then consider "nb = [b]" "ni = []" | "nb = []" "ni = [b]"
    by (auto simp: append_eq_Cons_conv)
  then show ?thesis
  proof cases
    case 1
    from st 1 have "snd (forEach_replace block_id blockPatterns (raw, [])) = [] @ [b]" by simp
    from forEach_single[OF this] st obtain pre post p where
      h: "raw = pre @ content b @ post" "c = pre @ id_str b @ post" "id_str b = block_id 0"
        "(p, isBlock b) \<in> set blockPatterns" "match_at p (content b @ post) = Some (length (content b))"
      by auto
    from e 1 have "snd (forEach_replace inline_id inlinePatterns (c, nb)) = nb" by simp
    from forEach_unchanged[OF this] e have "processed = c" by simp
    with h show ?thesis by blast
  next
    case 2
    from st 2 have "snd (forEach_replace block_id blockPatterns (raw, [])) = []" by simp
    from forEach_unchanged[OF this] st have c: "c = raw" by simp
    from e 2 c have "snd (forEach_replace inline_id inlinePatterns (raw, [])) = [] @ [b]" by simp
    from forEach_single[OF this] e 2 c obtain pre post p where
      h: "raw = pre @ content b @ post" "processed = pre @ id_str b @ post" "id_str b = inline_id 0"
        "(p, isBlock b) \<in> set inlinePatterns" "match_at p (content b @ post) = Some (length (content b))"
      by auto
    then show ?thesis by blast
  qed
qed

text \<open>
  Claim C2. Block patterns are scanned before inline patterns: the input
  \<open>$$ a $$ and $ b $\<close> gives exactly one block span, \<open>$$ a $$\<close>, and one inline span,
  \<open>$ b $\<close>, and no other span.
\<close>

theorem C2_block_before_inline:
  "extractLatex ''$$ a $$ and $ b $'' =
     (''LATEXBLOCK0END and LATEXINLINE1END'',
      [\<lparr>id_str = ''LATEXBLOCK0END'', content = ''$$ a $$'', isBlock = True\<rparr>,
       \<lparr>id_str = ''LATEXINLINE1END'', content = ''$ b $'', isBlock = False\<rparr>])"
  by code_simp

text \<open>
  The order matters: the single-dollar pattern on the input as it stands would tear the
  block span into \<open>$ a $\<close> and \<open>$ and $\<close>.
\<close>

lemma inline_scan_first_tears_block:
  "replace_all inline_id DollarInline False ''$$ a $$ and $ b $'' [] =
     (''$LATEXINLINE0ENDLATEXINLINE1END b $'',
      [\<lparr>id_str = ''LATEXINLINE0END'', content = ''$ a $'', isBlock = False\<rparr>,
       \<lparr>id_str = ''LATEXINLINE1END'', content = ''$ and $'', isBlock = False\<rparr>])"
  by code_simp

text \<open>
  What the paragraph callback does for the marker as a string: when its argument is the
  string of one block marker that the store resolves to a block span, it returns the
  centered block that holds the math element. For an argument that is rendered already
  (an array of nodes, or an element) it returns the ordinary paragraph.
\<close>

lemma paragraph_render_marker_string:
  assumes "match_whole BlockMarker s"
    and "find (\<lambda>block. id_str block = s) latexBlocks = Some latexBlock"
    and "isBlock latexBlock"
  shows "paragraph_render latexBlocks (Str s) =
           Elem (Host ''div'') [(''className'', PStr ''my-6 text-center'')]
             [Latex blockDelimiters (content latexBlock)]"
  using assms by (simp add: paragraph_render_def)

lemma paragraph_render_rendered_children:
  "paragraph_render latexBlocks (Arr cs) =
     Elem (Host ''p'') [(''className'', PStr ''leading-6 my-4 break-words'')] [Arr cs]"
  "paragraph_render latexBlocks (Elem t ps cs) =
     Elem (Host ''p'') [(''className'', PStr ''leading-6 my-4 break-words'')] [Elem t ps cs]"
  by (simp_all add: paragraph_render_def)

lemma paragraph_of_leaf_is_paragraph:
  "paragraph_of_leaf latexBlocks leaf =
     Elem (Host ''p'') [(''className'', PStr ''leading-6 my-4 break-words'')]
       [Arr [text_render latexBlocks leaf]]"
  by (simp add: paragraph_of_leaf_def paragraph_render_rendered_children)

text \<open>
  Claim C5, which the code does not meet. The document \<open>\[ x = 1 \]\<close> is extracted to the
  one block marker \<open>LATEXBLOCK0END\<close>; the paragraph that holds this one leaf is rendered as
  the ordinary paragraph element around the math element, not as the centered block: the
  callback is given the rendered children, which are no string, so its test for the
  marker string does not fire.
\<close>

theorem C5_standalone_block_in_paragraph:
  "extractLatex ([bslash] @ ''[ x = 1 '' @ [bslash] @ '']'') =
     (''LATEXBLOCK0END'',
      [\<lparr>id_str = ''LATEXBLOCK0END'', content = [bslash] @ ''[ x = 1 '' @ [bslash] @ '']'', isBlock = True\<rparr>])
   \<and> paragraph_of_leaf
       (snd (extractLatex ([bslash] @ ''[ x = 1 '' @ [bslash] @ '']'')))
       (fst (extractLatex ([bslash] @ ''[ x = 1 '' @ [bslash] @ '']''))) =
     Elem (Host ''p'') [(''className'', PStr ''leading-6 my-4 break-words'')]
       [Arr [Latex blockDelimiters ([bslash] @ ''[ x = 1 '' @ [bslash] @ '']'')]]"
  by code_simp

text \<open>
  With more than one span the stored content need not be a substring of the input: a
  later pattern can match across a marker that an earlier one has put in.
\<close>

lemma nested_span_content:
  "extractLatex (''$$ '' @ [bslash] @ ''[ a '' @ [bslash] @ ''] $$'') =
     (''LATEXBLOCK1END'',
      [\<lparr>id_str = ''LATEXBLOCK0END'', content = [bslash] @ ''[ a '' @ [bslash] @ '']'', isBlock = True\<rparr>,
       \<lparr>id_str = ''LATEXBLOCK1END'', content = ''$$ LATEXBLOCK0END $$'', isBlock = True\<rparr>])"
  by code_simp

subsection \<open>Marker tokens do not overlap\<close>

lemma match_marker_shape:
  assumes "match_marker name s = Some n"
  shows "\<exists>ds rest. s = name @ ds @ ''END'' @ rest \<and> ds \<noteq> [] \<and> (\<forall>c\<in>set ds. is_digit c) \<and>
           n = length name + length ds + 3"
proof -
  let ?r = "drop (length name) s"
  from assms have pn: "prefix name s" and ne: "takeWhile is_digit ?r \<noteq> []"
    and pe: "prefix ''END'' (dropWhile is_digit ?r)"
    and n: "n = length name + length (takeWhile is_digit ?r) + 3"
    by (auto simp: match_marker_def Let_def split: if_splits)
  from pn have s: "s = name @ ?r" by (auto simp: prefix_def)
  from pe obtain rest where d: "dropWhile is_digit ?r = ''END'' @ rest" by (auto simp: prefix_def)
  have "?r = takeWhile is_digit ?r @ dropWhile is_digit ?r" by simp
  with d have r: "?r = takeWhile is_digit ?r @ ''END'' @ rest" by simp
  have "\<forall>c\<in>set (takeWhile is_digit ?r). is_digit c" by (auto dest: set_takeWhileD)
  moreover from s r have "s = name @ takeWhile is_digit ?r @ ''END'' @ rest" by metis
  ultimately show ?thesis using ne n by blast
qed

lemma digit_not_L: "is_digit c \<Longrightarrow> c \<noteq> CHR ''L''"
  by (auto simp: is_digit_def)

lemma tail_no_LA:
  assumes dg: "\<forall>c\<in>set ds. is_digit c" and e: "e < length ds + 3"
  shows "\<not> prefix ''LA'' (drop e (ds @ ''END'' @ rest))"
proof (cases "e < length ds")
  case True
  then have "drop e (ds @ ''END'' @ rest) = ds ! e # (drop (Suc e) ds @ ''END'' @ rest)"
    by (simp add: Cons_nth_drop_Suc)
  moreover from True dg have "is_digit (ds ! e)" by simp
  then have "ds ! e \<noteq> CHR ''L''" by (rule digit_not_L)
  ultimately show ?thesis by simp
next
  case False
  with e consider "e = length ds" | "e = length ds + 1" | "e = length ds + 2" by linarith
  then show ?thesis by cases simp_all
qed

lemma name_no_inner:
  assumes dg: "\<forall>c\<in>set ds. is_digit c" and d0: "length name \<le> d" and d1: "d < length name + length ds + 3"
  shows "\<not> prefix ''LA'' (drop d (name @ ds @ ''END'' @ rest))"
proof -
  define X where "X = ds @ ''END'' @ rest"
  from d0 d1 have e: "d - length name < length ds + 3" by simp
  have "\<not> prefix ''LA'' (drop (d - length name) X)"
    unfolding X_def by (rule tail_no_LA[OF dg e])
  moreover from d0 have "drop d (name @ X) = drop (d - length name) X" by simp
  ultimately have "\<not> prefix ''LA'' (drop d (name @ X))" by simp
  then show ?thesis unfolding X_def .
qed

lemma block_no_inner:
  assumes dg: "\<forall>c\<in>set ds. is_digit c" and d0: "0 < d" and d1: "d < 10 + length ds + 3"
  shows "\<not> prefix ''LA'' (drop d (''LATEXBLOCK'' @ ds @ ''END'' @ rest))"
proof (cases "d < 10")
  case True
  with d0 have "d = 1 \<or> d = 2 \<or> d = 3 \<or> d = 4 \<or> d = 5 \<or> d = 6 \<or> d = 7 \<or> d = 8 \<or> d = 9"
    by presburger
  then consider "d = 1" | "d = 2" | "d = 3" | "d = 4" | "d = 5" | "d = 6" | "d = 7" | "d = 8" | "d = 9"
    by blast
  then show ?thesis by cases simp_all
next
  case False
  with d1 name_no_inner[OF dg, of "''LATEXBLOCK''" d rest] show ?thesis by simp
qed

lemma inline_no_inner:
  assumes dg: "\<forall>c\<in>set ds. is_digit c" and d0: "0 < d" and d1: "d < 11 + length ds + 3"
  shows "\<not> prefix ''LA'' (drop d (''LATEXINLINE'' @ ds @ ''END'' @ rest))"
proof (cases "d < 11")
  case True
  with d0 have "d = 1 \<or> d = 2 \<or> d = 3 \<or> d = 4 \<or> d = 5 \<or> d = 6 \<or> d = 7 \<or> d = 8 \<or> d = 9 \<or> d = 10"
    by presburger
  then consider "d = 1" | "d = 2" | "d = 3" | "d = 4" | "d = 5" | "d = 6" | "d = 7" | "d = 8" | "d = 9" | "d = 10"
    by blast
  then show ?thesis by cases simp_all
next
  case False
  with d1 name_no_inner[OF dg, of "''LATEXINLINE''" d rest] show ?thesis by simp
qed

lemma marker_starts_LA: "is_marker p \<Longrightarrow> match_at p s = Some n \<Longrightarrow> prefix ''LA'' s"
  by (auto simp: is_marker_def match_marker_def split: if_splits elim!: prefixE)

lemma marker_no_inner:
  assumes "is_marker p" and m: "match_at p s = Some n" and "0 < d" and "d < n"
  shows "\<not> prefix ''LA'' (drop d s)"
proof -
  from assms(1) consider "p = BlockMarker" | "p = InlineMarker" by (auto simp: is_marker_def)
  then show ?thesis
  proof cases
    case 1
    with m have "match_marker ''LATEXBLOCK'' s = Some n" by simp
    from match_marker_shape[OF this] obtain ds rest where
      "s = ''LATEXBLOCK'' @ ds @ ''END'' @ rest" "\<forall>c\<in>set ds. is_digit c" "n = length ''LATEXBLOCK'' + length ds + 3"
      by blast
    with block_no_inner[of ds d rest] assms(3,4) show ?thesis by simp
  next
    case 2
    with m have "match_marker ''LATEXINLINE'' s = Some n" by simp
    from match_marker_shape[OF this] obtain ds rest where
      "s = ''LATEXINLINE'' @ ds @ ''END'' @ rest" "\<forall>c\<in>set ds. is_digit c" "n = length ''LATEXINLINE'' + length ds + 3"
      by blast
    with inline_no_inner[of ds d rest] assms(3,4) show ?thesis by simp
  qed
qed

lemma markers_apart:
  assumes "is_marker p" "is_marker q"
    and mi: "match_at p (drop i text) = Some n" and mj: "match_at q (drop j text) = Some k"
    and "i < j"
  shows "i + n \<le> j"
proof (rule ccontr)
  assume "\<not> i + n \<le> j"
  with \<open>i < j\<close> have d: "0 < j - i" "j - i < n" by simp_all
  from marker_no_inner[OF assms(1) mi d] \<open>i < j\<close> have "\<not> prefix ''LA'' (drop j text)" by simp
  with marker_starts_LA[OF assms(2) mj] show False by simp
qed

lemma markers_same_start:
  assumes "match_at BlockMarker s = Some n" "match_at InlineMarker s = Some k"
  shows False
  using assms by (auto simp: match_marker_def split: if_splits elim!: prefixE)

subsection \<open>The matches of a leaf text\<close>

lemma exec_all_Nil: "exec_all p off [] = []"
  by (simp add: exec_all.simps)

lemma exec_all_Some:
  "s \<noteq> [] \<Longrightarrow> match_at p s = Some n \<Longrightarrow>
   exec_all p off s = (off, take n s) # exec_all p (off + n) (drop n s)"
  by (subst exec_all.simps) simp

lemma exec_all_None:
  "s \<noteq> [] \<Longrightarrow> match_at p s = None \<Longrightarrow> exec_all p off s = exec_all p (Suc off) (tl s)"
  by (subst exec_all.simps) simp

lemma exec_all_props:
  "(i, tok) \<in> set (exec_all p off s) \<Longrightarrow>
   off \<le> i \<and> i + length tok \<le> off + length s \<and> tok = take (length tok) (drop (i - off) s) \<and>
   match_at p (drop (i - off) s) = Some (length tok)"
proof (induction p off s rule: exec_all.induct)
  case (1 p off s)
  show ?case
  proof (cases "s = []")
    case True
    with "1.prems" show ?thesis by (simp add: exec_all_Nil)
  next
    case False
    show ?thesis
    proof (cases "match_at p s")
      case None
      from "1.prems" have "(i, tok) \<in> set (exec_all p (Suc off) (tl s))"
        by (simp add: exec_all_None[OF False None])
      from "1.IH"(1)[OF False None this]
      have h: "Suc off \<le> i" "i + length tok \<le> Suc off + length (tl s)"
        "tok = take (length tok) (drop (i - Suc off) (tl s))"
        "match_at p (drop (i - Suc off) (tl s)) = Some (length tok)" by simp_all
      from h(1) have "drop (i - Suc off) (tl s) = drop (i - off) s"
        by (simp add: drop_Suc[symmetric] Suc_diff_Suc)
      with h False show ?thesis by (cases s) auto
    next
      case (Some n)
      from match_at_pos[OF Some] have n: "0 < n" "n \<le> length s" by simp_all
      from "1.prems" consider "(i, tok) = (off, take n s)" | "(i, tok) \<in> set (exec_all p (off + n) (drop n s))"
        by (auto simp: exec_all_Some[OF False Some])
      then show ?thesis
      proof cases
        case 1
        with n Some show ?thesis by simp
      next
        case 2
        from "1.IH"(2)[OF False Some 2]
        have h: "off + n \<le> i" "i + length tok \<le> off + n + length (drop n s)"
          "tok = take (length tok) (drop (i - (off + n)) (drop n s))"
          "match_at p (drop (i - (off + n)) (drop n s)) = Some (length tok)" by blast+
        from h(1) have e: "i - (off + n) + n = i - off" by arith
        have "drop (i - (off + n)) (drop n s) = drop (i - off) s" by (simp add: e)
        with h n show ?thesis by auto
      qed
    qed
  qed
qed

lemma exec_all_sorted: "sorted_wrt (\<lambda>a b. fst a + length (snd a) \<le> fst b) (exec_all p off s)"
proof (induction p off s rule: exec_all.induct)
  case (1 p off s)
  show ?case
  proof (cases "s = []")
    case True
    then show ?thesis by (simp add: exec_all_Nil)
  next
    case False
    show ?thesis
    proof (cases "match_at p s")
      case None
      with "1.IH"(1)[OF False None] False show ?thesis by (simp add: exec_all_None)
    next
      case (Some n)
      from match_at_pos[OF Some] have n: "n \<le> length s" by simp
      have "\<forall>b\<in>set (exec_all p (off + n) (drop n s)). off + n \<le> fst b"
        using exec_all_props[of _ _ p "off + n" "drop n s"] by auto
      with "1.IH"(2)[OF False Some] n show ?thesis by (simp add: exec_all_Some[OF False Some])
    qed
  qed
qed

lemma exec_all_empty_iff: "exec_all p off s = [] \<longleftrightarrow> search p s = None"
proof (induction s arbitrary: off)
  case Nil
  show ?case by (simp add: exec_all_Nil)
next
  case (Cons c cs)
  show ?case
  proof (cases "match_at p (c # cs)")
    case None
    with Cons.IH[of "Suc off"] show ?thesis
      by (simp add: exec_all_None split: option.splits)
  next
    case (Some n)
    then show ?thesis by (simp add: exec_all_Some)
  qed
qed

lemma exec_all_text:
  assumes "(i, tok) \<in> set (exec_all p 0 text)"
  shows "i + length tok \<le> length text \<and> tok = take (length tok) (drop i text) \<and>
         match_at p (drop i text) = Some (length tok) \<and> tok \<noteq> []"
proof -
  from exec_all_props[OF assms] have h: "i + length tok \<le> length text"
    "tok = take (length tok) (drop i text)" "match_at p (drop i text) = Some (length tok)" by simp_all
  from match_at_pos[OF h(3)] have "tok \<noteq> []" by auto
  with h show ?thesis by blast
qed

lemma sorted_wrt_distinct:
  "sorted_wrt (\<lambda>a b. fst a + length (snd a) \<le> fst b) xs \<Longrightarrow> \<forall>a\<in>set xs. snd a \<noteq> [] \<Longrightarrow> distinct xs"
  by (induction xs) fastforce+

lemma exec_all_distinct: "distinct (exec_all p 0 text)"
  using exec_all_sorted[of p 0 "text"] exec_all_text[of _ _ p "text"]
  by (intro sorted_wrt_distinct) auto

lemma allMatches_set:
  "set (allMatches text) =
     (\<lambda>m. (m, True)) ` set (exec_all BlockMarker 0 text) \<union>
     (\<lambda>m. (m, False)) ` set (exec_all InlineMarker 0 text)"
  by (simp add: allMatches_def)

lemma allMatches_elem:
  assumes "((i, tok), isB) \<in> set (allMatches text)"
  shows "i + length tok \<le> length text \<and> tok = take (length tok) (drop i text) \<and>
         match_at (pat_of isB) (drop i text) = Some (length tok) \<and> tok \<noteq> []"
  using assms exec_all_text[of i tok BlockMarker "text"] exec_all_text[of i tok InlineMarker "text"]
  by (auto simp: allMatches_set pat_of_def)

lemma allMatches_sorted: "sorted (map (\<lambda>(m, isB). fst m) (allMatches text))"
  by (simp add: allMatches_def sorted_sort_key)

lemma allMatches_distinct: "distinct (allMatches text)"
  by (auto simp: allMatches_def distinct_map exec_all_distinct inj_on_def)

lemma allMatches_mset:
  "mset (allMatches text) =
     mset (map (\<lambda>m. (m, True)) (exec_all BlockMarker 0 text)) +
     mset (map (\<lambda>m. (m, False)) (exec_all InlineMarker 0 text))"
  by (simp add: allMatches_def)

lemma allMatches_apart:
  assumes x: "((i, tok), b) \<in> set (allMatches text)" and y: "((j, tok'), b') \<in> set (allMatches text)"
    and ne: "((i, tok), b) \<noteq> ((j, tok'), b')" and le: "i \<le> j"
  shows "i + length tok \<le> j"
proof -
  from allMatches_elem[OF x] have hx: "tok = take (length tok) (drop i text)"
    "match_at (pat_of b) (drop i text) = Some (length tok)" by simp_all
  from allMatches_elem[OF y] have hy: "tok' = take (length tok') (drop j text)"
    "match_at (pat_of b') (drop j text) = Some (length tok')" by simp_all
  have mk: "is_marker (pat_of b)" "is_marker (pat_of b')" by (simp_all add: is_marker_def pat_of_def)
  show ?thesis
  proof (cases "i < j")
    case True
    from markers_apart[OF mk hx(2) hy(2) True] show ?thesis .
  next
    case False
    with le have ij: "i = j" by simp
    show ?thesis
    proof (cases "b = b'")
      case True
      with hx(2) hy(2) ij have "length tok = length tok'" by simp
      with hx(1) hy(1) ij have "tok = tok'" by metis
      with ij True ne show ?thesis by simp
    next
      case False
      with hx(2) hy(2) ij markers_same_start[of "drop i text"] show ?thesis
        by (cases b; cases b') (auto simp: pat_of_def)
    qed
  qed
qed

lemma sorted_wrt_from_sorted:
  assumes "sorted (map f xs)" and "distinct xs"
    and "\<And>x y. x \<in> set xs \<Longrightarrow> y \<in> set xs \<Longrightarrow> x \<noteq> y \<Longrightarrow> f x \<le> f y \<Longrightarrow> P x y"
  shows "sorted_wrt P xs"
  using assms by (induction xs) auto

lemma allMatches_chain:
  "sorted_wrt (\<lambda>x y. fst (fst x) + length (snd (fst x)) \<le> fst (fst y)) (allMatches text)"
proof (rule sorted_wrt_from_sorted[where f = "\<lambda>(m, isB). fst m"])
  show "sorted (map (\<lambda>(m, isB). fst m) (allMatches text))" by (rule allMatches_sorted)
  show "distinct (allMatches text)" by (rule allMatches_distinct)
next
  fix x y
  assume a: "x \<in> set (allMatches text)" "y \<in> set (allMatches text)" "x \<noteq> y"
    "(case x of (m, isB) \<Rightarrow> fst m) \<le> (case y of (m, isB) \<Rightarrow> fst m)"
  obtain i tok b where x: "x = ((i, tok), b)" by (metis prod.collapse)
  obtain j tok' b' where y: "y = ((j, tok'), b')" by (metis prod.collapse)
  from a x y allMatches_apart[of i tok b "text" j tok' b']
  show "fst (fst x) + length (snd (fst x)) \<le> fst (fst y)" by simp
qed

subsection \<open>The loop over the matches\<close>

lemma length_gaps_between: "length (gaps_between tx lastEnd ms) = length ms"
  by (induction tx lastEnd ms rule: gaps_between.induct) simp_all

lemma process_match_step:
  assumes "lastEnd \<le> i" and "i + length tok \<le> length tx" and "tok \<noteq> []"
  shows "process_match blocks tx (comps, lastEnd) ((i, tok), b) =
           (comps @ literal (slice tx lastEnd i) @ [match_unit blocks ((i, tok), b)], i + length tok)"
proof (cases "lastEnd < i")
  case True
  with assms have "slice tx lastEnd i \<noteq> []" by (auto simp: slice_def)
  with True show ?thesis by (simp add: process_match_def literal_def)
next
  case False
  with assms(1) have "slice tx lastEnd i = []" by (simp add: slice_def)
  with False show ?thesis by (simp add: process_match_def literal_def)
qed

lemma text_step:
  assumes "lastEnd \<le> i" and "tok = take (length tok) (drop i tx)"
  shows "drop lastEnd tx = slice tx lastEnd i @ tok @ drop (i + length tok) tx"
proof -
  from assms(1) have "drop (i - lastEnd) (drop lastEnd tx) = drop i tx" by simp
  then have a: "drop lastEnd tx = slice tx lastEnd i @ drop i tx"
    unfolding slice_def by (metis append_take_drop_id)
  have "take (length tok) (drop i tx) @ drop (length tok) (drop i tx) = drop i tx"
    by (rule append_take_drop_id)
  with assms(2) have "tok @ drop (length tok) (drop i tx) = drop i tx" by metis
  then have "drop i tx = tok @ drop (i + length tok) tx" by (simp add: add.commute)
  with a show ?thesis by simp
qed

lemma walk:
  assumes "sorted_wrt (\<lambda>x y. fst (fst x) + length (snd (fst x)) \<le> fst (fst y)) ms"
    and "\<forall>x\<in>set ms. lastEnd \<le> fst (fst x) \<and> fst (fst x) + length (snd (fst x)) \<le> length tx \<and>
           snd (fst x) = take (length (snd (fst x))) (drop (fst (fst x)) tx) \<and> snd (fst x) \<noteq> []"
  shows "foldl (process_match blocks tx) (comps, lastEnd) ms =
           (comps @ concat (map2 (\<lambda>g m. literal g @ [match_unit blocks m]) (gaps_between tx lastEnd ms) ms),
            end_of_matches lastEnd ms)
       \<and> drop lastEnd tx =
           concat (map2 (\<lambda>g m. g @ snd (fst m)) (gaps_between tx lastEnd ms) ms) @
           drop (end_of_matches lastEnd ms) tx"
  using assms
proof (induction ms arbitrary: comps lastEnd)
  case Nil
  show ?case by simp
next
  case (Cons x ms)
  obtain i tok b where x: "x = ((i, tok), b)" by (metis prod.collapse)
  from Cons.prems(2) x have h: "lastEnd \<le> i" "i + length tok \<le> length tx"
    "tok = take (length tok) (drop i tx)" "tok \<noteq> []" by simp_all
  from Cons.prems(1) have s: "sorted_wrt (\<lambda>x y. fst (fst x) + length (snd (fst x)) \<le> fst (fst y)) ms"
    and f: "\<forall>y\<in>set ms. i + length tok \<le> fst (fst y)" using x by simp_all
  from Cons.prems(2) f have r: "\<forall>x\<in>set ms. i + length tok \<le> fst (fst x) \<and>
      fst (fst x) + length (snd (fst x)) \<le> length tx \<and>
      snd (fst x) = take (length (snd (fst x))) (drop (fst (fst x)) tx) \<and> snd (fst x) \<noteq> []"
    by simp
  note ih = Cons.IH[OF s r, of "comps @ literal (slice tx lastEnd i) @ [match_unit blocks ((i, tok), b)]"]
  from ih process_match_step[OF h(1,2,4), of blocks comps b] text_step[OF h(1,3)] x
  show ?case by simp
qed

lemma allMatches_walk:
  "mixed_components blocks tx =
     concat (map2 (\<lambda>g m. literal g @ [match_unit blocks m]) (gaps_between tx 0 (allMatches tx)) (allMatches tx)) @
     literal (drop (end_of_matches 0 (allMatches tx)) tx)
   \<and> tx = concat (map2 (\<lambda>g m. g @ snd (fst m)) (gaps_between tx 0 (allMatches tx)) (allMatches tx)) @
       drop (end_of_matches 0 (allMatches tx)) tx"
proof -
  have a: "\<forall>x\<in>set (allMatches tx). 0 \<le> fst (fst x) \<and> fst (fst x) + length (snd (fst x)) \<le> length tx \<and>
           snd (fst x) = take (length (snd (fst x))) (drop (fst (fst x)) tx) \<and> snd (fst x) \<noteq> []"
  proof
    fix x assume "x \<in> set (allMatches tx)"
    moreover obtain i tok b where "x = ((i, tok), b)" by (metis prod.collapse)
    ultimately show "0 \<le> fst (fst x) \<and> fst (fst x) + length (snd (fst x)) \<le> length tx \<and>
           snd (fst x) = take (length (snd (fst x))) (drop (fst (fst x)) tx) \<and> snd (fst x) \<noteq> []"
      using allMatches_elem[of i tok b tx] by simp
  qed
  from walk[OF allMatches_chain a, of blocks "[]"]
  have w1: "foldl (process_match blocks tx) ([], 0) (allMatches tx) =
           (concat (map2 (\<lambda>g m. literal g @ [match_unit blocks m]) (gaps_between tx 0 (allMatches tx)) (allMatches tx)),
            end_of_matches 0 (allMatches tx))"
    and w2: "tx = concat (map2 (\<lambda>g m. g @ snd (fst m)) (gaps_between tx 0 (allMatches tx)) (allMatches tx)) @
           drop (end_of_matches 0 (allMatches tx)) tx" by simp_all
  have "mixed_components blocks tx =
     concat (map2 (\<lambda>g m. literal g @ [match_unit blocks m]) (gaps_between tx 0 (allMatches tx)) (allMatches tx)) @
     literal (drop (end_of_matches 0 (allMatches tx)) tx)"
    by (simp add: mixed_components_def w1 literal_def)
  with w2 show ?thesis by blast
qed

subsection \<open>A leaf text that is one marker, and markers without a span\<close>

lemma whole_allMatches:
  assumes mk: "is_marker p" and w: "match_whole p tx"
  shows "allMatches tx = [((0, tx), p = BlockMarker)]"
proof -
  from w have m: "match_at p tx = Some (length tx)" by (simp add: match_whole_def)
  from match_at_pos[OF m] have ne: "tx \<noteq> []" by auto
  have own: "exec_all p 0 tx = [(0, tx)]"
    by (simp add: exec_all_Some[OF ne m] exec_all_Nil)
  have other: "exec_all q 0 tx = []" if q: "is_marker q" "q \<noteq> p" for q
  proof (rule ccontr)
    assume "exec_all q 0 tx \<noteq> []"
    then obtain j tok where e: "(j, tok) \<in> set (exec_all q 0 tx)"
      by (cases "exec_all q 0 tx") auto
    from exec_all_text[OF e] have h: "j + length tok \<le> length tx"
      "match_at q (drop j tx) = Some (length tok)" "tok \<noteq> []" by simp_all
    show False
    proof (cases "j = 0")
      case True
      from mk q consider "p = BlockMarker" "q = InlineMarker" | "p = InlineMarker" "q = BlockMarker"
        by (auto simp: is_marker_def)
      then show False
      proof cases
        case 1
        from m 1 have a: "match_at BlockMarker tx = Some (length tx)" by simp
        from h(2) True 1 have b: "match_at InlineMarker tx = Some (length tok)" by simp
        from a b show False by (rule markers_same_start)
      next
        case 2
        from m 2 have a: "match_at InlineMarker tx = Some (length tx)" by simp
        from h(2) True 2 have b: "match_at BlockMarker tx = Some (length tok)" by simp
        from b a show False by (rule markers_same_start)
      qed
    next
      case False
      then have "0 < j" by simp
      from markers_apart[OF mk q(1) _ h(2) this] m have "length tx \<le> j" by simp
      moreover from h(3) have "0 < length tok" by simp
      ultimately show False using h(1) by arith
    qed
  qed
  from mk consider "p = BlockMarker" | "p = InlineMarker" by (auto simp: is_marker_def)
  then show ?thesis
  proof cases
    case 1
    with other[of InlineMarker] own show ?thesis by (simp add: allMatches_def is_marker_def)
  next
    case 2
    with other[of BlockMarker] own show ?thesis by (simp add: allMatches_def is_marker_def)
  qed
qed

lemma whole_mixed_components:
  assumes mk: "is_marker p" and w: "match_whole p tx"
  shows "mixed_components blocks tx = [match_unit blocks ((0, tx), p = BlockMarker)]"
  by (simp add: mixed_components_def whole_allMatches[OF mk w] process_match_def)

lemma whole_test: "match_whole p tx \<Longrightarrow> test p tx"
proof -
  assume "match_whole p tx"
  then have m: "match_at p tx = Some (length tx)" by (simp add: match_whole_def)
  from match_at_pos[OF m] obtain c cs where "tx = c # cs" by (cases tx) auto
  with m show "test p tx" by (simp add: test_def)
qed

lemma whole_not_both: "match_whole BlockMarker tx \<Longrightarrow> match_whole InlineMarker tx \<Longrightarrow> False"
  unfolding match_whole_def by (rule markers_same_start)

text \<open>
  Claim C7, as the code has it. For a leaf text that is exactly one marker, the
  single-marker path returns the bare math element; the mixed path on the same text
  would return that same element as the only component of a \<open>span\<close>. The two paths
  coincide only when the store has no entry for the marker, where the single-marker path
  is not taken at all.
\<close>

theorem C7_shortcut_is_unwrapped_unit:
  assumes "match_whole BlockMarker text \<or> match_whole InlineMarker text"
  shows "mixed_content latexBlocks text =
           (case find (\<lambda>block. id_str block = text) latexBlocks of
              Some latexBlock \<Rightarrow> Elem (Host ''span'') [] [Arr [text_render latexBlocks text]]
            | None \<Rightarrow> text_render latexBlocks text)"
  using assms
proof
  assume w: "match_whole BlockMarker text"
  have mk: "is_marker BlockMarker" by (simp add: is_marker_def)
  from whole_test[OF w] whole_mixed_components[OF mk w, of latexBlocks] w
  show ?thesis
    by (auto simp: mixed_content_def text_render_def match_unit_def split: option.splits)
next
  assume w: "match_whole InlineMarker text"
  have mk: "is_marker InlineMarker" by (simp add: is_marker_def)
  from w whole_not_both[of "text"] have nb: "\<not> match_whole BlockMarker text" by blast
  from whole_test[OF w] whole_mixed_components[OF mk w, of latexBlocks] w nb
  show ?thesis
    by (auto simp: mixed_content_def text_render_def match_unit_def split: option.splits)
qed

theorem C7_witness:
  "mixed_content [\<lparr>id_str = ''LATEXINLINE0END'', content = ''$x$'', isBlock = False\<rparr>] ''LATEXINLINE0END'' =
     Elem (Host ''span'') []
       [Arr [text_render [\<lparr>id_str = ''LATEXINLINE0END'', content = ''$x$'', isBlock = False\<rparr>] ''LATEXINLINE0END'']]"
proof -
  have w: "match_whole BlockMarker ''LATEXINLINE0END'' \<or> match_whole InlineMarker ''LATEXINLINE0END''"
    by (simp add: match_whole_def match_marker_def is_digit_def)
  from C7_shortcut_is_unwrapped_unit[OF w, of "[\<lparr>id_str = ''LATEXINLINE0END'', content = ''$x$'', isBlock = False\<rparr>]"]
  show ?thesis by simp
qed

theorem C7_counterexample:
  "text_render [\<lparr>id_str = ''LATEXBLOCK0END'', content = ''$$x$$'', isBlock = True\<rparr>] ''LATEXBLOCK0END'' =
     Latex blockDelimiters ''$$x$$''
   \<and> mixed_content [\<lparr>id_str = ''LATEXBLOCK0END'', content = ''$$x$$'', isBlock = True\<rparr>] ''LATEXBLOCK0END'' =
     Elem (Host ''span'') [] [Arr [Latex blockDelimiters ''$$x$$'']]
   \<and> text_render [\<lparr>id_str = ''LATEXBLOCK0END'', content = ''$$x$$'', isBlock = True\<rparr>] ''LATEXBLOCK0END'' \<noteq>
     mixed_content [\<lparr>id_str = ''LATEXBLOCK0END'', content = ''$$x$$'', isBlock = True\<rparr>] ''LATEXBLOCK0END''"
  by code_simp

lemma unit_in_components:
  assumes "length gs = length ms" and "x \<in> set ms"
  shows "\<exists>before after. concat (map2 (\<lambda>g m. F g @ [U m]) gs ms) = before @ [U x] @ after"
  using assms
proof (induction gs ms rule: list_induct2)
  case Nil
  then show ?case by simp
next
  case (Cons g gs m ms)
  show ?case
  proof (cases "x = m")
    case True
    have "concat (map2 (\<lambda>g m. F g @ [U m]) (g # gs) (m # ms)) =
        F g @ [U x] @ concat (map2 (\<lambda>g m. F g @ [U m]) gs ms)" using True by simp
    then show ?thesis by blast
  next
    case False
    with Cons.prems have "x \<in> set ms" by simp
    from Cons.IH[OF this] obtain before after where
      "concat (map2 (\<lambda>g m. F g @ [U m]) gs ms) = before @ [U x] @ after" by blast
    then have "concat (map2 (\<lambda>g m. F g @ [U m]) (g # gs) (m # ms)) =
        (F g @ [U m] @ before) @ [U x] @ after" by simp
    then show ?thesis by blast
  qed
qed

lemma unresolved_match_literal:
  assumes "(m, isB) \<in> set (allMatches text)"
    and "find (\<lambda>block. id_str block = snd m) latexBlocks = None"
  shows "text_render latexBlocks text = mixed_content latexBlocks text
       \<and> (\<exists>before after.
            mixed_components latexBlocks text = before @ [WordByWordFadeIn (Str (snd m))] @ after)
       \<and> snd m = slice text (fst m) (fst m + length (snd m))"
proof -
  obtain i tok where m: "m = (i, tok)" by (cases m)
  from allMatches_elem[of i tok isB "text"] assms(1) m
  have el: "tok = take (length tok) (drop i text)" by simp
  then have sl: "snd m = slice text (fst m) (fst m + length (snd m))"
    using m by (simp add: slice_def)
  have u: "match_unit latexBlocks (m, isB) = WordByWordFadeIn (Str (snd m))"
    using assms(2) m by (simp add: match_unit_def)
  from allMatches_walk[of latexBlocks "text"]
  have "mixed_components latexBlocks text =
     concat (map2 (\<lambda>g m. literal g @ [match_unit latexBlocks m]) (gaps_between text 0 (allMatches text)) (allMatches text)) @
     literal (drop (end_of_matches 0 (allMatches text)) text)" by blast
  moreover from unit_in_components[OF length_gaps_between assms(1), of literal "match_unit latexBlocks" "text" 0]
  obtain before after where
    "concat (map2 (\<lambda>g m. literal g @ [match_unit latexBlocks m]) (gaps_between text 0 (allMatches text)) (allMatches text)) =
       before @ [match_unit latexBlocks (m, isB)] @ after" by blast
  ultimately have "mixed_components latexBlocks text =
      before @ [WordByWordFadeIn (Str (snd m))] @ (after @ literal (drop (end_of_matches 0 (allMatches text)) text))"
    using u by simp
  then have ex: "\<exists>before after.
            mixed_components latexBlocks text = before @ [WordByWordFadeIn (Str (snd m))] @ after"
    by blast
  have t: "test BlockMarker text \<or> test InlineMarker text"
  proof -
    from assms(1) have "exec_all BlockMarker 0 text \<noteq> [] \<or> exec_all InlineMarker 0 text \<noteq> []"
      by (auto simp: allMatches_set)
    then show ?thesis by (simp add: test_def exec_all_empty_iff)
  qed
  have nb: "find (\<lambda>block. id_str block = text) latexBlocks = None" if "match_whole BlockMarker text"
  proof -
    from whole_allMatches[OF _ that] assms(1) have "snd m = text" by (simp add: is_marker_def)
    with assms(2) show ?thesis by simp
  qed
  have ni: "find (\<lambda>block. id_str block = text) latexBlocks = None" if "match_whole InlineMarker text"
  proof -
    from whole_allMatches[OF _ that] assms(1) have "snd m = text" by (simp add: is_marker_def)
    with assms(2) show ?thesis by simp
  qed
  from t nb ni have "text_render latexBlocks text = mixed_content latexBlocks text"
    by (auto simp: text_render_def)
  with ex sl show ?thesis by blast
qed

lemma exec_all_complete:
  "is_marker p \<Longrightarrow> off \<le> j \<Longrightarrow> match_at p (drop (j - off) s) = Some n \<Longrightarrow>
   (j, take n (drop (j - off) s)) \<in> set (exec_all p off s)"
proof (induction p off s rule: exec_all.induct)
  case (1 p off s)
  note mk = "1.prems"(1) and oj = "1.prems"(2) and mj = "1.prems"(3)
  show ?case
  proof (cases "s = []")
    case True
    with mj have "match_at p [] = Some n" by simp
    from match_at_pos[OF this] have False by auto
    then show ?thesis ..
  next
    case False
    show ?thesis
    proof (cases "match_at p s")
      case None
      with mj have "off \<noteq> j" by auto
      with oj have le: "Suc off \<le> j" by simp
      then have d: "drop (j - Suc off) (tl s) = drop (j - off) s"
        by (simp add: drop_Suc[symmetric] Suc_diff_Suc)
      from "1.IH"(1)[OF False None mk le] mj d
      show ?thesis by (simp add: exec_all_None[OF False None])
    next
      case (Some m)
      show ?thesis
      proof (cases "j = off")
        case True
        with mj Some show ?thesis by (simp add: exec_all_Some[OF False Some])
      next
        case ne: False
        with oj have pos: "0 < j - off" by simp
        from Some have m0: "match_at p (drop 0 s) = Some m" by simp
        from markers_apart[OF mk mk m0 mj pos] have "m \<le> j - off" by simp
        with oj have le: "off + m \<le> j" by simp
        then have e: "j - (off + m) + m = j - off" by arith
        have d: "drop (j - (off + m)) (drop m s) = drop (j - off) s" by (simp add: e)
        from "1.IH"(2)[OF False Some mk le] mj d
        show ?thesis by (simp add: exec_all_Some[OF False Some] e)
      qed
    qed
  qed
qed

text \<open>
  The two scans miss no occurrence: wherever a marker pattern matches in the leaf text,
  that match is one of \<open>allMatches\<close>.
\<close>

lemma allMatches_complete:
  assumes "is_marker p" and "match_at p (drop i text) = Some n"
  shows "((i, take n (drop i text)), p = BlockMarker) \<in> set (allMatches text)"
proof -
  from exec_all_complete[OF assms(1), of 0 i "text" n] assms(2)
  have "(i, take n (drop i text)) \<in> set (exec_all p 0 text)" by simp
  with assms(1) show ?thesis by (auto simp: allMatches_set is_marker_def)
qed

text \<open>
  Claim C6. When a marker-shaped token stands anywhere in the leaf text (one of the two
  marker patterns matches at an offset \<open>i\<close>, with length \<open>n\<close>) and the store, whatever it
  holds, has no entry whose id is that token, resolution takes the mixed path, which is
  total, and the component emitted for the token is the prose unit of the token's own
  text.
\<close>

theorem C6_marker_without_span_is_literal:
  assumes "p = BlockMarker \<or> p = InlineMarker"
    and "match_at p (drop i text) = Some n"
    and "find (\<lambda>block. id_str block = slice text i (i + n)) latexBlocks = None"
  shows "text_render latexBlocks text = mixed_content latexBlocks text
       \<and> (\<exists>before after.
            mixed_components latexBlocks text =
              before @ [WordByWordFadeIn (Str (slice text i (i + n)))] @ after)"
proof -
  from assms(1) have mk: "is_marker p" by (simp add: is_marker_def)
  have sl: "slice text i (i + n) = take n (drop i text)" by (simp add: slice_def)
  from mk assms(2) have a: "((i, take n (drop i text)), p = BlockMarker) \<in> set (allMatches text)"
    by (rule allMatches_complete)
  from assms(3) sl
  have f: "find (\<lambda>block. id_str block = snd (i, take n (drop i text))) latexBlocks = None" by simp
  from unresolved_match_literal[OF a f]
  have r1: "text_render latexBlocks text = mixed_content latexBlocks text"
    and "\<exists>before after. mixed_components latexBlocks text =
           before @ [WordByWordFadeIn (Str (snd (i, take n (drop i text))))] @ after" by blast+
  then have r2: "\<exists>before after. mixed_components latexBlocks text =
           before @ [WordByWordFadeIn (Str (take n (drop i text)))] @ after"
    by (simp only: snd_conv)
  show ?thesis unfolding sl using r1 r2 by (rule conjI)
qed

theorem C6_witness:
  "text_render [] ''LATEXBLOCK0END'' = mixed_content [] ''LATEXBLOCK0END''
   \<and> mixed_content [] ''LATEXBLOCK0END'' =
       Elem (Host ''span'') [] [Arr [WordByWordFadeIn (Str ''LATEXBLOCK0END'')]]"
proof -
  have a: "match_at BlockMarker (drop 0 ''LATEXBLOCK0END'') = Some 14"
    by (simp add: match_marker_def is_digit_def)
  have f: "find (\<lambda>block. id_str block = slice ''LATEXBLOCK0END'' 0 (0 + 14)) [] = None"
    by simp
  have v: "mixed_content [] ''LATEXBLOCK0END'' =
       Elem (Host ''span'') [] [Arr [WordByWordFadeIn (Str ''LATEXBLOCK0END'')]]"
    by code_simp
  from C6_marker_without_span_is_literal[OF _ a f] v show ?thesis by blast
qed

lemma text_render_paths:
  "\<not> test BlockMarker text \<Longrightarrow> \<not> test InlineMarker text \<Longrightarrow>
     text_render latexBlocks text = WordByWordFadeIn (Str text)"
  "test BlockMarker text \<or> test InlineMarker text \<Longrightarrow>
     \<not> match_whole BlockMarker text \<Longrightarrow> \<not> match_whole InlineMarker text \<Longrightarrow>
     text_render latexBlocks text = mixed_content latexBlocks text"
  by (auto simp: text_render_def)

subsection \<open>The wrapping callbacks and the component\<close>

lemma hasLatexComponent_math_element:
  "hasLatexComponent importName (Latex delimiters src) \<longleftrightarrow> importName ''Latex'' = Some ''Latex''"
  "hasLatexComponent importName (Arr [Latex delimiters src]) \<longleftrightarrow> importName ''Latex'' = Some ''Latex''"
  by (simp_all add: hasLatexComponent_def Latex_def)




text \<open>
  Claim C10, as the code has it. When the input parses as JSON the element returned is
  the JSON viewer of the raw string, with no structural-parser element and so no marker
  resolution; the extraction still runs, as the memoized value of the render, and is not
  used.
\<close>

theorem C10_json_bypasses_parser:
  "tree (NonMemoizedMarkdown True children) =
     Elem (Host ''article'') [(''className'', PStr ''w-full h-full relative'')]
       [Elem (Imported ''JsonView'') [(''data'', PStr children)] []]
   \<and> memo (NonMemoizedMarkdown True children) = extractLatex children"
  by (simp add: NonMemoizedMarkdown_def case_prod_beta)

theorem C10_counterexample:
  "memo (NonMemoizedMarkdown True
       (''{'' @ [CHR 0x22] @ ''a'' @ [CHR 0x22] @ '':'' @ [CHR 0x22] @ ''$x$'' @ [CHR 0x22] @ ''}'')) =
     (''{'' @ [CHR 0x22] @ ''a'' @ [CHR 0x22] @ '':'' @ [CHR 0x22] @ ''LATEXINLINE0END'' @ [CHR 0x22] @ ''}'',
      [\<lparr>id_str = ''LATEXINLINE0END'', content = ''$x$'', isBlock = False\<rparr>])"
  by code_simp

subsection \<open>The resolver on a leaf text\<close>

lemma allMatches_Nil_iff:
  "allMatches tx = [] \<longleftrightarrow> \<not> test BlockMarker tx \<and> \<not> test InlineMarker tx"
proof -
  have "allMatches tx = [] \<longleftrightarrow> set (allMatches tx) = {}" by simp
  also have "\<dots> \<longleftrightarrow> exec_all BlockMarker 0 tx = [] \<and> exec_all InlineMarker 0 tx = []"
    by (simp add: allMatches_set)
  also have "\<dots> \<longleftrightarrow> \<not> test BlockMarker tx \<and> \<not> test InlineMarker tx"
    unfolding test_def exec_all_empty_iff by (simp only: not_not)
  finally show ?thesis .
qed

lemma text_render_no_match:
  "allMatches tx = [] \<Longrightarrow> text_render blocks tx = WordByWordFadeIn (Str tx)"
  by (simp add: allMatches_Nil_iff text_render_def)

lemma text_render_with_matches:
  assumes "allMatches tx \<noteq> []"
  shows "text_render blocks tx = Elem (Host ''span'') [] [Arr (mixed_components blocks tx)]
       \<or> mixed_components blocks tx = [text_render blocks tx]"
proof -
  from assms have t: "test BlockMarker tx \<or> test InlineMarker tx"
    by (simp add: allMatches_Nil_iff)
  show ?thesis
  proof (cases "match_whole BlockMarker tx")
    case True
    have mk: "is_marker BlockMarker" by (simp add: is_marker_def)
    from t True whole_mixed_components[OF mk True, of blocks] show ?thesis
      by (auto simp: mixed_content_def text_render_def match_unit_def split: option.splits)
  next
    case nb: False
    show ?thesis
    proof (cases "match_whole InlineMarker tx")
      case True
      have mk: "is_marker InlineMarker" by (simp add: is_marker_def)
      from t nb True whole_mixed_components[OF mk True, of blocks] show ?thesis
        by (auto simp: mixed_content_def text_render_def match_unit_def split: option.splits)
    next
      case False
      with t nb show ?thesis by (auto simp: mixed_content_def text_render_def)
    qed
  qed
qed

lemma allMatches_strict:
  "sorted_wrt (<) (map (\<lambda>(m, isB). fst m) (allMatches tx))"
proof -
  have "sorted_wrt (\<lambda>x y. fst (fst x) < fst (fst y)) (allMatches tx)"
  proof (rule sorted_wrt_mono_rel[OF _ allMatches_chain])
    fix x y assume x: "x \<in> set (allMatches tx)" and y: "y \<in> set (allMatches tx)"
      and le: "fst (fst x) + length (snd (fst x)) \<le> fst (fst y)"
    obtain i tok b where xx: "x = ((i, tok), b)" by (metis prod.collapse)
    from allMatches_elem[of i tok b tx] x xx have "tok \<noteq> []" by simp
    with le xx show "fst (fst x) < fst (fst y)" by (cases tok) simp_all
  qed
  then show ?thesis by (simp add: sorted_wrt_map case_prod_beta)
qed

text \<open>
  Claim C3. The resolver collects every match of both marker shapes: wherever one of the
  two marker patterns matches in the leaf text, that match, at its offset, is one of
  \<open>allMatches\<close>, and every element of \<open>allMatches\<close> is such a match. They are the matches of
  the two scans merged in one list, in strictly ascending order of start offset. The
  units follow the document: the leaf text is \<open>gap\<^sub>1 @ match\<^sub>1 @ \<dots> @ gap\<^sub>N @ match\<^sub>N @ rest\<close>
  for the matches in that order, and the components are a Literal for each non-empty gap,
  the unit of each match right after its gap, and a trailing Literal for a non-empty
  rest. The text callback returns the one Literal of the whole text when there is no
  match and these components otherwise (in a \<open>span\<close>, or the one unit itself when the text
  is a single marker).
\<close>

theorem C3_resolver_document_order:
  "((p = BlockMarker \<or> p = InlineMarker) \<and> match_at p (drop i text) = Some n \<longrightarrow>
      ((i, slice text i (i + n)), p = BlockMarker) \<in> set (allMatches text))
 \<and> (\<forall>((start, fullMatch), isB) \<in> set (allMatches text).
      match_at (if isB then BlockMarker else InlineMarker) (drop start text) = Some (length fullMatch)
      \<and> fullMatch = slice text start (start + length fullMatch))
 \<and> mset (allMatches text) =
       mset (map (\<lambda>m. (m, True)) (exec_all BlockMarker 0 text)) +
       mset (map (\<lambda>m. (m, False)) (exec_all InlineMarker 0 text))
 \<and> sorted_wrt (<) (map (\<lambda>((start, fullMatch), isB). start) (allMatches text))
 \<and> (\<exists>gaps rest.
       length gaps = length (allMatches text)
     \<and> text = concat (map2 (\<lambda>g ((start, fullMatch), isB). g @ fullMatch) gaps (allMatches text)) @ rest
     \<and> mixed_components latexBlocks text =
         concat (map2 (\<lambda>g m. literal g @ [match_unit latexBlocks m]) gaps (allMatches text)) @
         literal rest)
 \<and> (allMatches text = [] \<longrightarrow> text_render latexBlocks text = WordByWordFadeIn (Str text))
 \<and> (allMatches text \<noteq> [] \<longrightarrow>
      text_render latexBlocks text = Elem (Host ''span'') [] [Arr (mixed_components latexBlocks text)]
      \<or> mixed_components latexBlocks text = [text_render latexBlocks text])"
proof -
  have c1: "(p = BlockMarker \<or> p = InlineMarker) \<and> match_at p (drop i text) = Some n \<longrightarrow>
      ((i, slice text i (i + n)), p = BlockMarker) \<in> set (allMatches text)"
  proof
    assume a: "(p = BlockMarker \<or> p = InlineMarker) \<and> match_at p (drop i text) = Some n"
    then have mk: "is_marker p" by (simp add: is_marker_def)
    have sl: "slice text i (i + n) = take n (drop i text)" by (simp add: slice_def)
    from allMatches_complete[OF mk, of i "text" n] a
    show "((i, slice text i (i + n)), p = BlockMarker) \<in> set (allMatches text)"
      unfolding sl by blast
  qed
  have c2: "\<forall>((start, fullMatch), isB) \<in> set (allMatches text).
      match_at (if isB then BlockMarker else InlineMarker) (drop start text) = Some (length fullMatch)
      \<and> fullMatch = slice text start (start + length fullMatch)"
  proof (intro ballI, clarify)
    fix start fullMatch isB
    assume "((start, fullMatch), isB) \<in> set (allMatches text)"
    from allMatches_elem[OF this]
    have "fullMatch = take (length fullMatch) (drop start text)"
      "match_at (pat_of isB) (drop start text) = Some (length fullMatch)" by simp_all
    then show "match_at (if isB then BlockMarker else InlineMarker) (drop start text) = Some (length fullMatch)
      \<and> fullMatch = slice text start (start + length fullMatch)"
      by (simp add: pat_of_def slice_def)
  qed
  have e1: "(\<lambda>g ((start, fullMatch), isB). g @ fullMatch) = (\<lambda>g m. g @ snd (fst m))"
    by (auto simp: fun_eq_iff)
  have e2: "(\<lambda>((start, fullMatch), isB). start) = (\<lambda>(m, isB). fst m)"
    by (auto simp: fun_eq_iff)
  have c4: "sorted_wrt (<) (map (\<lambda>((start, fullMatch), isB). start) (allMatches text))"
    unfolding e2 by (rule allMatches_strict)
  let ?g = "gaps_between text 0 (allMatches text)"
  let ?r = "drop (end_of_matches 0 (allMatches text)) text"
  from allMatches_walk[of latexBlocks "text"]
  have "length ?g = length (allMatches text)
     \<and> text = concat (map2 (\<lambda>g ((start, fullMatch), isB). g @ fullMatch) ?g (allMatches text)) @ ?r
     \<and> mixed_components latexBlocks text =
         concat (map2 (\<lambda>g m. literal g @ [match_unit latexBlocks m]) ?g (allMatches text)) @
         literal ?r"
    unfolding e1 by (simp add: length_gaps_between)
  then have c5: "\<exists>gaps rest.
       length gaps = length (allMatches text)
     \<and> text = concat (map2 (\<lambda>g ((start, fullMatch), isB). g @ fullMatch) gaps (allMatches text)) @ rest
     \<and> mixed_components latexBlocks text =
         concat (map2 (\<lambda>g m. literal g @ [match_unit latexBlocks m]) gaps (allMatches text)) @
         literal rest" by blast
  have c6: "allMatches text = [] \<longrightarrow> text_render latexBlocks text = WordByWordFadeIn (Str text)"
    by (simp add: text_render_no_match)
  have c7: "allMatches text \<noteq> [] \<longrightarrow>
      text_render latexBlocks text = Elem (Host ''span'') [] [Arr (mixed_components latexBlocks text)]
      \<or> mixed_components latexBlocks text = [text_render latexBlocks text]"
    using text_render_with_matches[of "text" latexBlocks] by blast
  from c1 c2 allMatches_mset[of "text"] c4 c5 c6 c7 show ?thesis by (intro conjI)
qed

theorem C3_witness:
  "((2, ''LATEXINLINE1END''), False) \<in> set (allMatches ''x LATEXINLINE1END y LATEXBLOCK0END z'')
   \<and> allMatches ''x LATEXINLINE1END y LATEXBLOCK0END z'' =
       [((2, ''LATEXINLINE1END''), False), ((20, ''LATEXBLOCK0END''), True)]
   \<and> text_render
       [\<lparr>id_str = ''LATEXBLOCK0END'', content = ''$$ a $$'', isBlock = True\<rparr>,
        \<lparr>id_str = ''LATEXINLINE1END'', content = ''$ b $'', isBlock = False\<rparr>]
       ''x LATEXINLINE1END y LATEXBLOCK0END z'' =
     Elem (Host ''span'') []
       [Arr [WordByWordFadeIn (Str ''x ''), Latex inlineDelimiters ''$ b $'',
             WordByWordFadeIn (Str '' y ''), Latex blockDelimiters ''$$ a $$'',
             WordByWordFadeIn (Str '' z'')]]"
proof -
  have m: "(InlineMarker = BlockMarker \<or> InlineMarker = InlineMarker) \<and>
      match_at InlineMarker (drop 2 ''x LATEXINLINE1END y LATEXBLOCK0END z'') = Some 15"
    by (simp add: match_marker_def is_digit_def)
  have s: "slice ''x LATEXINLINE1END y LATEXBLOCK0END z'' 2 (2 + 15) = ''LATEXINLINE1END''"
    by (simp add: slice_def)
  from C3_resolver_document_order[of InlineMarker 2 "''x LATEXINLINE1END y LATEXBLOCK0END z''" 15] m
  have "((2, slice ''x LATEXINLINE1END y LATEXBLOCK0END z'' 2 (2 + 15)), InlineMarker = BlockMarker)
      \<in> set (allMatches ''x LATEXINLINE1END y LATEXBLOCK0END z'')" by blast
  then have a: "((2, ''LATEXINLINE1END''), False) \<in> set (allMatches ''x LATEXINLINE1END y LATEXBLOCK0END z'')"
    unfolding s by simp
  have b: "allMatches ''x LATEXINLINE1END y LATEXBLOCK0END z'' =
       [((2, ''LATEXINLINE1END''), False), ((20, ''LATEXBLOCK0END''), True)]"
    by code_simp
  have c: "text_render
       [\<lparr>id_str = ''LATEXBLOCK0END'', content = ''$$ a $$'', isBlock = True\<rparr>,
        \<lparr>id_str = ''LATEXINLINE1END'', content = ''$ b $'', isBlock = False\<rparr>]
       ''x LATEXINLINE1END y LATEXBLOCK0END z'' =
     Elem (Host ''span'') []
       [Arr [WordByWordFadeIn (Str ''x ''), Latex inlineDelimiters ''$ b $'',
             WordByWordFadeIn (Str '' y ''), Latex blockDelimiters ''$$ a $$'',
             WordByWordFadeIn (Str '' z'')]]"
    by code_simp
  from a b c show ?thesis by (intro conjI)
qed

subsection \<open>What resolution hands to the math component\<close>

lemma find_SomeD: "find P xs = Some x \<Longrightarrow> x \<in> set xs \<and> P x"
  by (induction xs) (auto split: if_splits)

lemma latex_sources_Latex: "latex_sources (Latex delimiters src) = [src]"
  by (simp add: Latex_def)

lemma latex_sources_literal: "latex_sources (WordByWordFadeIn n) = latex_sources n"
  by (simp add: WordByWordFadeIn_def)

lemma match_unit_sources: "set (latex_sources (match_unit blocks m)) \<subseteq> content ` set blocks"
proof -
  obtain i tok b where m: "m = ((i, tok), b)" by (metis prod.collapse)
  show ?thesis
  proof (cases "find (\<lambda>block. id_str block = tok) blocks")
    case None
    with m show ?thesis by (simp add: match_unit_def latex_sources_literal)
  next
    case (Some lb)
    from find_SomeD[OF Some] have "lb \<in> set blocks" by simp
    with Some m show ?thesis by (simp add: match_unit_def latex_sources_Latex)
  qed
qed

lemma process_match_sources:
  assumes "\<forall>c\<in>set comps. set (latex_sources c) \<subseteq> content ` set blocks"
  shows "\<forall>c\<in>set (fst (foldl (process_match blocks tx) (comps, lastEnd) ms)).
           set (latex_sources c) \<subseteq> content ` set blocks"
  using assms
proof (induction ms arbitrary: comps lastEnd)
  case Nil
  then show ?case by simp
next
  case (Cons m ms)
  obtain comps' lastEnd' where st: "process_match blocks tx (comps, lastEnd) m = (comps', lastEnd')"
    by (cases "process_match blocks tx (comps, lastEnd) m")
  obtain i tok b where m: "m = ((i, tok), b)" by (metis prod.collapse)
  from st m have sub: "set comps' \<subseteq> set comps \<union> {WordByWordFadeIn (Str (slice tx lastEnd i)), match_unit blocks m}"
    by (auto simp: process_match_def Let_def split: if_splits)
  have "\<forall>c\<in>set comps'. set (latex_sources c) \<subseteq> content ` set blocks"
  proof
    fix c assume "c \<in> set comps'"
    with sub consider "c \<in> set comps" | "c = WordByWordFadeIn (Str (slice tx lastEnd i))"
      | "c = match_unit blocks m" by blast
    then show "set (latex_sources c) \<subseteq> content ` set blocks"
    proof cases
      case 1
      with Cons.prems show ?thesis by blast
    next
      case 2
      then show ?thesis by (simp add: latex_sources_literal)
    next
      case 3
      with match_unit_sources[of blocks m] show ?thesis by simp
    qed
  qed
  from Cons.IH[OF this, of lastEnd'] st show ?case by simp
qed

lemma mixed_components_sources:
  "\<forall>c\<in>set (mixed_components blocks tx). set (latex_sources c) \<subseteq> content ` set blocks"
proof -
  from process_match_sources[of "[]" blocks tx 0 "allMatches tx"]
  have "\<forall>c\<in>set (fst (foldl (process_match blocks tx) ([], 0) (allMatches tx))).
           set (latex_sources c) \<subseteq> content ` set blocks" by simp
  then show ?thesis
    by (auto simp: mixed_components_def Let_def case_prod_beta latex_sources_literal
        split: if_splits)
qed

text \<open>Whatever the text callback hands to the math component is the content of an entry
  of the store.\<close>

lemma text_render_sources:
  "set (latex_sources (text_render blocks tx)) \<subseteq> content ` set blocks"
proof -
  have m: "set (latex_sources (mixed_content blocks tx)) \<subseteq> content ` set blocks"
    using mixed_components_sources[of blocks tx] by (auto simp: mixed_content_def)
  have f: "find (\<lambda>block. id_str block = tx) blocks = Some lb \<Longrightarrow> content lb \<in> content ` set blocks" for lb
    by (auto dest: find_SomeD)
  show ?thesis
    using m f
    by (auto simp: text_render_def latex_sources_Latex latex_sources_literal
        split: option.splits if_splits)
qed

lemma marker0_match:
  "match_at BlockMarker (''LATEXBLOCK0END'' @ r) = Some 14"
  "match_at InlineMarker (''LATEXINLINE0END'' @ r) = Some 15"
  by (simp_all add: match_marker_def is_digit_def)

lemma single_span_leaf:
  assumes k: "isBlock b \<and> id_str b = ''LATEXBLOCK0END'' \<or> \<not> isBlock b \<and> id_str b = ''LATEXINLINE0END''"
  shows "text_render [b] (l @ id_str b @ r) =
           Latex (if isBlock b then blockDelimiters else inlineDelimiters) (content b)
       \<or> (\<exists>before after. text_render [b] (l @ id_str b @ r) =
             Elem (Host ''span'') []
               [Arr (before @ [Latex (if isBlock b then blockDelimiters else inlineDelimiters) (content b)]
                       @ after)])"
proof -
  let ?leaf = "l @ id_str b @ r"
  let ?D = "if isBlock b then blockDelimiters else inlineDelimiters"
  have mk: "is_marker (pat_of (isBlock b))" by (simp add: is_marker_def pat_of_def)
  from k have m: "match_at (pat_of (isBlock b)) (drop (length l) ?leaf) = Some (length (id_str b))"
    using marker0_match[of r] by (auto simp: pat_of_def)
  have tk: "take (length (id_str b)) (drop (length l) ?leaf) = id_str b" by simp
  from allMatches_complete[OF mk m] tk
  have a: "((length l, id_str b), isBlock b) \<in> set (allMatches ?leaf)"
    by (cases "isBlock b") (simp_all add: pat_of_def)
  have u: "match_unit [b] ((length l, id_str b), isBlock b) = Latex ?D (content b)"
    by (simp add: match_unit_def)
  from allMatches_walk[of "[b]" ?leaf]
  have w: "mixed_components [b] ?leaf =
     concat (map2 (\<lambda>g m. literal g @ [match_unit [b] m]) (gaps_between ?leaf 0 (allMatches ?leaf)) (allMatches ?leaf)) @
     literal (drop (end_of_matches 0 (allMatches ?leaf)) ?leaf)" by blast
  from unit_in_components[OF length_gaps_between a, of literal "match_unit [b]" ?leaf 0]
  obtain before after where
    "concat (map2 (\<lambda>g m. literal g @ [match_unit [b] m]) (gaps_between ?leaf 0 (allMatches ?leaf)) (allMatches ?leaf)) =
       before @ [match_unit [b] ((length l, id_str b), isBlock b)] @ after" by blast
  with w u have c: "mixed_components [b] ?leaf =
      before @ [Latex ?D (content b)] @ (after @ literal (drop (end_of_matches 0 (allMatches ?leaf)) ?leaf))"
    by simp
  show ?thesis
  proof (cases "?leaf = id_str b")
    case True
    with k text_render_block0[of b] text_render_inline0[of b] show ?thesis by auto
  next
    case False
    then have f: "find (\<lambda>block. id_str block = ?leaf) [b] = None" by auto
    from a have "allMatches ?leaf \<noteq> []" by auto
    then have t: "test BlockMarker ?leaf \<or> test InlineMarker ?leaf"
      by (simp add: allMatches_Nil_iff)
    from t f have "text_render [b] ?leaf = mixed_content [b] ?leaf"
      by (auto simp: text_render_def)
    with c have "text_render [b] ?leaf =
        Elem (Host ''span'') []
          [Arr (before @ [Latex ?D (content b)] @
                (after @ literal (drop (end_of_matches 0 (allMatches ?leaf)) ?leaf)))]"
      by (simp add: mixed_content_def)
    then show ?thesis by (intro disjI2 exI)
  qed
qed

text \<open>
  Claim C1. When extraction finds exactly one math span in the input, the content stored
  for it is the matched substring of the input as it stands, delimiters included: the
  input is \<open>pre @ content @ post\<close>, the substituted text is \<open>pre @ marker @ post\<close>, and one of the
  four patterns matches exactly \<open>content\<close> there. Resolution hands that very string to the
  math component: for the substituted text, and for any leaf text that holds the marker,
  the text callback returns the math element of \<open>content\<close> itself or a \<open>span\<close> whose
  components hold it, and \<open>content\<close> is all that the callback hands to the math component.
\<close>

theorem C1_raw_content_verbatim:
  assumes "extractLatex raw = (processed, [b])"
  shows "(\<exists>pre post. raw = pre @ content b @ post \<and> processed = pre @ id_str b @ post \<and>
            (\<exists>p. p \<in> fst ` set (blockPatterns @ inlinePatterns) \<and>
                 match_at p (content b @ post) = Some (length (content b))))
       \<and> set (latex_sources (text_render [b] processed)) = {content b}
       \<and> set (latex_sources (text_render [b] (l @ id_str b @ r))) = {content b}
       \<and> (text_render [b] (l @ id_str b @ r) =
            Latex (if isBlock b then blockDelimiters else inlineDelimiters) (content b)
          \<or> (\<exists>before after. text_render [b] (l @ id_str b @ r) =
               Elem (Host ''span'') []
                 [Arr (before @
                       [Latex (if isBlock b then blockDelimiters else inlineDelimiters) (content b)] @
                       after)]))"
proof -
  let ?D = "if isBlock b then blockDelimiters else inlineDelimiters"
  from extract_single[OF assms] obtain pre post p where
    h: "raw = pre @ content b @ post" "processed = pre @ id_str b @ post"
      "match_at p (content b @ post) = Some (length (content b))"
      "(p, isBlock b) \<in> set blockPatterns \<and> id_str b = block_id 0 \<or>
       (p, isBlock b) \<in> set inlinePatterns \<and> id_str b = inline_id 0" by blast
  from h(4) have p: "p \<in> fst ` set (blockPatterns @ inlinePatterns)" by force
  from h(4) have k: "isBlock b \<and> id_str b = ''LATEXBLOCK0END'' \<or> \<not> isBlock b \<and> id_str b = ''LATEXINLINE0END''"
    by (auto simp: blockPatterns_def inlinePatterns_def block_id_def inline_id_def show_nat_0)
  have src: "set (latex_sources (text_render [b] (x @ id_str b @ y))) = {content b}" for x y
  proof -
    from single_span_leaf[OF k, of x y]
    have "content b \<in> set (latex_sources (text_render [b] (x @ id_str b @ y)))"
      by (auto simp: latex_sources_Latex)
    moreover from text_render_sources[of "[b]" "x @ id_str b @ y"]
    have "set (latex_sources (text_render [b] (x @ id_str b @ y))) \<subseteq> {content b}" by simp
    ultimately show ?thesis by blast
  qed
  have a: "\<exists>pre post. raw = pre @ content b @ post \<and> processed = pre @ id_str b @ post \<and>
            (\<exists>p. p \<in> fst ` set (blockPatterns @ inlinePatterns) \<and>
                 match_at p (content b @ post) = Some (length (content b)))"
    using h(1-3) p by blast
  have s1: "set (latex_sources (text_render [b] processed)) = {content b}"
    unfolding h(2) by (rule src)
  from a s1 src[of l r] single_span_leaf[OF k, of l r] show ?thesis by (intro conjI)
qed

theorem C1_witness:
  "extractLatex ''see $$ x^2 $$ here'' =
     (''see LATEXBLOCK0END here'', [\<lparr>id_str = ''LATEXBLOCK0END'', content = ''$$ x^2 $$'', isBlock = True\<rparr>])
   \<and> set (latex_sources
       (text_render [\<lparr>id_str = ''LATEXBLOCK0END'', content = ''$$ x^2 $$'', isBlock = True\<rparr>]
          ''see LATEXBLOCK0END here'')) = {''$$ x^2 $$''}
   \<and> text_render [\<lparr>id_str = ''LATEXBLOCK0END'', content = ''$$ x^2 $$'', isBlock = True\<rparr>]
         ''see LATEXBLOCK0END here'' =
       Elem (Host ''span'') []
         [Arr [WordByWordFadeIn (Str ''see ''), Latex blockDelimiters ''$$ x^2 $$'',
               WordByWordFadeIn (Str '' here'')]]"
proof -
  have e: "extractLatex ''see $$ x^2 $$ here'' =
     (''see LATEXBLOCK0END here'', [\<lparr>id_str = ''LATEXBLOCK0END'', content = ''$$ x^2 $$'', isBlock = True\<rparr>])"
    by code_simp
  have v: "text_render [\<lparr>id_str = ''LATEXBLOCK0END'', content = ''$$ x^2 $$'', isBlock = True\<rparr>]
         ''see LATEXBLOCK0END here'' =
       Elem (Host ''span'') []
         [Arr [WordByWordFadeIn (Str ''see ''), Latex blockDelimiters ''$$ x^2 $$'',
               WordByWordFadeIn (Str '' here'')]]"
    by code_simp
  from C1_raw_content_verbatim[OF e]
  have "set (latex_sources
       (text_render [\<lparr>id_str = ''LATEXBLOCK0END'', content = ''$$ x^2 $$'', isBlock = True\<rparr>]
          ''see LATEXBLOCK0END here'')) =
        {content \<lparr>id_str = ''LATEXBLOCK0END'', content = ''$$ x^2 $$'', isBlock = True\<rparr>}"
    by blast
  then have s: "set (latex_sources
       (text_render [\<lparr>id_str = ''LATEXBLOCK0END'', content = ''$$ x^2 $$'', isBlock = True\<rparr>]
          ''see LATEXBLOCK0END here'')) = {''$$ x^2 $$''}"
    by (simp only: latex_block.select_convs)
  from e s v show ?thesis by (intro conjI)
qed

end
